theory Spec2Isabelle
  imports Complex_Main "HOL-Library.Product_Lexorder"
begin

section \<open>Strings\<close>

text \<open>
  A JavaScript string is a sequence of UTF-16 code units; it is modelled as the list of
  their numbers, so that the rupee sign (U+20B9) and the Unicode white space that the
  regular expressions of the source mention are ordinary elements. \<open>js\<close> turns a
  literal into such a list.
\<close>

type_synonym jsstring = "nat list"

definition js :: "string \<Rightarrow> jsstring" where
  "js s = map of_char s"

text \<open>The class \<open>\s\<close> of a JavaScript regular expression, which is also what \<open>trim\<close> removes.\<close>

definition is_space :: "nat \<Rightarrow> bool" where
  "is_space c \<longleftrightarrow>
     (9 \<le> c \<and> c \<le> 13) \<or> c = 32 \<or> c = 160 \<or> c = 5760 \<or> (8192 \<le> c \<and> c \<le> 8202) \<or>
     c = 8232 \<or> c = 8233 \<or> c = 8239 \<or> c = 8287 \<or> c = 12288 \<or> c = 65279"

definition is_digit :: "nat \<Rightarrow> bool" where
  "is_digit c \<longleftrightarrow> 48 \<le> c \<and> c \<le> 57"

definition is_alpha :: "nat \<Rightarrow> bool" where
  "is_alpha c \<longleftrightarrow> (65 \<le> c \<and> c \<le> 90) \<or> (97 \<le> c \<and> c \<le> 122)"

definition trim :: "jsstring \<Rightarrow> jsstring" where
  "trim s = rev (dropWhile is_space (rev (dropWhile is_space s)))"

text \<open>
  \<open>toLowerCase\<close> on the code units U+0000 to U+00FF (the ASCII capitals and the Latin-1
  capitals other than the multiplication sign); code units beyond that range are left
  as they are.
\<close>

definition lower_unit :: "nat \<Rightarrow> nat" where
  "lower_unit c =
     (if 65 \<le> c \<and> c \<le> 90 then c + 32
      else if 192 \<le> c \<and> c \<le> 222 \<and> c \<noteq> 215 then c + 32
      else c)"

definition toLowerCase :: "jsstring \<Rightarrow> jsstring" where
  "toLowerCase s = map lower_unit s"

text \<open>\<open>s.includes(p)\<close>: \<open>p\<close> occurs in \<open>s\<close> as a contiguous block.\<close>

fun starts_with :: "jsstring \<Rightarrow> jsstring \<Rightarrow> bool" where
  "starts_with s [] = True"
| "starts_with [] (p # ps) = False"
| "starts_with (c # cs) (p # ps) = (c = p \<and> starts_with cs ps)"

fun includes_str :: "jsstring \<Rightarrow> jsstring \<Rightarrow> bool" where
  "includes_str [] p = (p = [])"
| "includes_str (c # cs) p = (starts_with (c # cs) p \<or> includes_str cs p)"

text \<open>\<open>xs.join(sep)\<close>.\<close>

fun join :: "jsstring \<Rightarrow> jsstring list \<Rightarrow> jsstring" where
  "join sep [] = []"
| "join sep [x] = x"
| "join sep (x # y # ys) = x @ sep @ join sep (y # ys)"

text \<open>
  \<open>s.split(/\s+/)\<close>: the pieces between maximal runs of white space; a run at the
  start or at the end leaves an empty piece there, and the empty string gives one empty
  piece.
\<close>

function split_ws :: "jsstring \<Rightarrow> jsstring list" where
  "split_ws s =
     (let w = takeWhile (\<lambda>c. \<not> is_space c) s; rest = dropWhile (\<lambda>c. \<not> is_space c) s
      in if rest = [] then [w] else w # split_ws (dropWhile is_space rest))"
  by pat_completeness auto
termination
proof (relation "measure length")
  show "wf (measure length)" by simp
next
  fix s :: jsstring and w rest :: jsstring
  assume rest: "rest = dropWhile (\<lambda>c. \<not> is_space c) s" and ne: "rest \<noteq> []"
  then have a: "length rest \<le> length s"
    by (simp add: length_dropWhile_le)
  from ne obtain c cs where r: "rest = c # cs"
    by (cases rest) auto
  have "is_space (hd rest)"
    using ne rest hd_dropWhile [of "\<lambda>c. \<not> is_space c" s] by auto
  then have "length (dropWhile is_space rest) \<le> length cs"
    using r by (simp add: length_dropWhile_le)
  then show "(dropWhile is_space rest, s) \<in> measure length"
    using a r by simp
qed

declare split_ws.simps [simp del]

section \<open>The persisted tables\<close>

text \<open>
  The tables of \<^verbatim>\<open>initImportTables\<close> (staged_transactions, category_rules) and of
  \<^verbatim>\<open>schema.sql\<close> (transactions, accounts), one record per row and one list per table.
  A column that may be NULL is an \<open>option\<close>; a NOT NULL column is not. A UUID is an
  opaque number, a DATE its day number, a DECIMAL(15,2) its value in hundredths. The
  columns that the statement-import routes never read or write (raw_text and the time
  stamps of the import tables; narration, tax_category, reference_number, source and the
  generated transaction_id of the ledger; the balances of an account) are left out.
\<close>

type_synonym uuid = nat
type_synonym sql_date = nat
type_synonym decimal2 = int

record staged_tx =
  s_id :: nat
  s_user_id :: uuid
  s_batch_id :: jsstring
  s_date :: "sql_date option"
  s_description :: "jsstring option"
  s_amount :: "decimal2 option"
  s_transaction_type :: "jsstring option"
  s_balance :: "decimal2 option"
  s_suggested_category :: "jsstring option"
  s_suggested_debit_account_id :: "uuid option"
  s_suggested_credit_account_id :: "uuid option"
  s_confidence :: "decimal2 option"
  s_status :: "jsstring option"
  s_source_file :: "jsstring option"

record category_rule =
  r_user_id :: uuid
  r_pattern :: jsstring
  r_category :: "jsstring option"
  r_debit_account_id :: "uuid option"
  r_credit_account_id :: "uuid option"
  r_hit_count :: int

record ledger_tx =
  t_user_id :: uuid
  t_date :: sql_date
  t_amount :: decimal2
  t_description :: "jsstring option"
  t_debit_account_id :: uuid
  t_credit_account_id :: uuid
  t_category :: "jsstring option"

record account =
  a_account_id :: uuid
  a_user_id :: uuid
  a_account_name :: jsstring
  a_account_type :: jsstring

record db =
  staged_transactions :: "staged_tx list"
  category_rules :: "category_rule list"
  transactions :: "ledger_tx list"
  accounts :: "account list"

text \<open>
  SQL comparison: \<open>a = b\<close> and \<open>a != b\<close> are true only when both sides are not NULL.
\<close>

definition sql_eq :: "'a option \<Rightarrow> 'a option \<Rightarrow> bool" where
  "sql_eq a b = (case a of None \<Rightarrow> False | Some x \<Rightarrow> (case b of None \<Rightarrow> False | Some y \<Rightarrow> x = y))"

definition sql_ne :: "'a option \<Rightarrow> 'a option \<Rightarrow> bool" where
  "sql_ne a b = (case a of None \<Rightarrow> False | Some x \<Rightarrow> (case b of None \<Rightarrow> False | Some y \<Rightarrow> x \<noteq> y))"

text \<open>
  \<open>if (batch_id)\<close>: a request parameter that is absent or the empty string is falsy.
\<close>

definition truthy :: "jsstring option \<Rightarrow> bool" where
  "truthy p = (case p of None \<Rightarrow> False | Some s \<Rightarrow> s \<noteq> [])"

section \<open>POST /confirm\<close>

datatype pg_error = NotNullViolation | CheckViolation | ForeignKeyViolation | ValueTooLong

text \<open>
  \<^verbatim>\<open>SELECT * FROM staged_transactions WHERE user_id = $1 AND status != 'rejected'\<close>,
  with \<^verbatim>\<open>AND batch_id = $2\<close> when a batch is given.
\<close>

definition select_staged :: "db \<Rightarrow> uuid \<Rightarrow> jsstring option \<Rightarrow> staged_tx list" where
  "select_staged d userId batch_id =
     filter (\<lambda>s. s_user_id s = userId \<and> sql_ne (s_status s) (Some (js ''rejected'')) \<and>
                 (truthy batch_id \<longrightarrow> Some (s_batch_id s) = batch_id))
       (staged_transactions d)"

text \<open>
  \<^verbatim>\<open>SELECT transaction_id FROM transactions WHERE user_id = $1 AND date = $2
    AND amount = $3 AND description = $4 LIMIT 1\<close>
\<close>

definition dupCheck :: "db \<Rightarrow> uuid \<Rightarrow> staged_tx \<Rightarrow> ledger_tx list" where
  "dupCheck d userId tx =
     take 1 (filter (\<lambda>t. t_user_id t = userId \<and> sql_eq (Some (t_date t)) (s_date tx) \<and>
                          sql_eq (Some (t_amount t)) (s_amount tx) \<and>
                          sql_eq (t_description t) (s_description tx))
               (transactions d))"

text \<open>
  \<^verbatim>\<open>INSERT INTO transactions (user_id, date, amount, description, debit_account_id,
    credit_account_id, category, created_at) VALUES (...)\<close> against the table of
  \<^verbatim>\<open>schema.sql\<close>: date, amount and both accounts are NOT NULL, \<^verbatim>\<open>CHECK (amount > 0)\<close>,
  \<^verbatim>\<open>CHECK (debit_account_id != credit_account_id)\<close>, and both accounts reference
  \<^verbatim>\<open>accounts(account_id)\<close>. The caller is an authenticated user, whose row in the
  users table exists. A violated constraint is the exception that the handler catches.
\<close>

definition insert_transaction :: "db \<Rightarrow> uuid \<Rightarrow> staged_tx \<Rightarrow> pg_error + db" where
  "insert_transaction d userId tx =
     (case s_date tx of None \<Rightarrow> Inl NotNullViolation | Some dt \<Rightarrow>
      case s_amount tx of None \<Rightarrow> Inl NotNullViolation | Some amt \<Rightarrow>
      case s_suggested_debit_account_id tx of None \<Rightarrow> Inl NotNullViolation | Some dr \<Rightarrow>
      case s_suggested_credit_account_id tx of None \<Rightarrow> Inl NotNullViolation | Some cr \<Rightarrow>
        if \<not> 0 < amt then Inl CheckViolation
        else if dr = cr then Inl CheckViolation
        else if dr \<notin> set (map a_account_id (accounts d)) \<or> cr \<notin> set (map a_account_id (accounts d))
          then Inl ForeignKeyViolation
        else Inr (d\<lparr>transactions := transactions d @
               [\<lparr>t_user_id = userId, t_date = dt, t_amount = amt,
                 t_description = s_description tx, t_debit_account_id = dr,
                 t_credit_account_id = cr, t_category = s_suggested_category tx\<rparr>]\<rparr>))"

text \<open>
  The pattern learnt from a description:
  \<^verbatim>\<open>words = description.replace(/[^a-zA-Z\s]/g, ' ').trim().split(/\s+/).filter(w => w.length > 2)\<close>
  and \<^verbatim>\<open>pattern = words.slice(0, 4).join(' ').toLowerCase()\<close>.
\<close>

definition words_of :: "jsstring \<Rightarrow> jsstring list" where
  "words_of description =
     filter (\<lambda>w. 2 < length w)
       (split_ws (trim (map (\<lambda>c. if is_alpha c \<or> is_space c then c else 32) description)))"

definition pattern_of :: "jsstring \<Rightarrow> jsstring" where
  "pattern_of description = toLowerCase (join (js '' '') (take 4 (words_of description)))"

text \<open>
  \<^verbatim>\<open>INSERT INTO category_rules (user_id, pattern, category, debit_account_id,
    credit_account_id, hit_count) VALUES ($1, $2, $3, $4, $5, 1)
    ON CONFLICT (user_id, pattern) DO UPDATE SET category = EXCLUDED.category,
    debit_account_id = EXCLUDED.debit_account_id, credit_account_id =
    EXCLUDED.credit_account_id, hit_count = category_rules.hit_count + 1\<close>.
  The pattern column is a VARCHAR(500): a longer pattern is an error, which the handler
  ignores (\<^verbatim>\<open>try { ... } catch {}\<close>).
\<close>

definition upsert_rule ::
  "category_rule list \<Rightarrow> uuid \<Rightarrow> jsstring \<Rightarrow> jsstring option \<Rightarrow> uuid option \<Rightarrow> uuid option
     \<Rightarrow> pg_error + category_rule list" where
  "upsert_rule rules userId pattern category debit credit =
     (if 500 < length pattern then Inl ValueTooLong
      else if \<exists>r \<in> set rules. r_user_id r = userId \<and> r_pattern r = pattern
        then Inr (map (\<lambda>r. if r_user_id r = userId \<and> r_pattern r = pattern
                            then r\<lparr>r_category := category, r_debit_account_id := debit,
                                   r_credit_account_id := credit, r_hit_count := r_hit_count r + 1\<rparr>
                            else r) rules)
      else Inr (rules @ [\<lparr>r_user_id = userId, r_pattern = pattern, r_category = category,
                           r_debit_account_id = debit, r_credit_account_id = credit,
                           r_hit_count = 1\<rparr>]))"

text \<open>
  The block after a successful insert: "Learn from user's classification".
\<close>

definition learn_rule :: "db \<Rightarrow> uuid \<Rightarrow> staged_tx \<Rightarrow> db" where
  "learn_rule d userId tx =
     (case s_description tx of None \<Rightarrow> d | Some description \<Rightarrow>
        if description \<noteq> [] \<and> s_suggested_category tx \<noteq> Some (js ''Uncategorized'') then
          (let pattern = pattern_of description in
           if 3 \<le> length pattern then
             (case upsert_rule (category_rules d) userId pattern (s_suggested_category tx)
                     (s_suggested_debit_account_id tx) (s_suggested_credit_account_id tx) of
                Inl e \<Rightarrow> d
              | Inr rules \<Rightarrow> d\<lparr>category_rules := rules\<rparr>)
           else d)
        else d)"

text \<open>
  The state of the loop over \<^verbatim>\<open>staged.rows\<close>: the database and the three counters of
  the handler (an error is kept as the row's id and the database's error).
\<close>

record confirm_state =
  cs_db :: db
  imported :: nat
  skipped :: nat
  errors :: "(nat \<times> pg_error) list"

definition confirm_row :: "uuid \<Rightarrow> confirm_state \<Rightarrow> staged_tx \<Rightarrow> confirm_state" where
  "confirm_row userId st tx =
     (if s_suggested_debit_account_id tx = None \<or> s_suggested_credit_account_id tx = None
        then st\<lparr>skipped := skipped st + 1\<rparr>
      else if dupCheck (cs_db st) userId tx \<noteq> []
        then st\<lparr>skipped := skipped st + 1\<rparr>
      else (case insert_transaction (cs_db st) userId tx of
              Inl e \<Rightarrow> st\<lparr>errors := errors st @ [(s_id tx, e)]\<rparr>
            | Inr d \<Rightarrow> st\<lparr>cs_db := learn_rule d userId tx, imported := imported st + 1\<rparr>))"

definition confirm_rows :: "uuid \<Rightarrow> confirm_state \<Rightarrow> staged_tx list \<Rightarrow> confirm_state" where
  "confirm_rows userId st rows = foldl (confirm_row userId) st rows"

text \<open>
  "Clear confirmed staged transactions":
  \<^verbatim>\<open>batch_id ? 'DELETE FROM staged_transactions WHERE user_id = $1 AND batch_id = $2'
    : 'DELETE FROM staged_transactions WHERE user_id = $1 AND status != \'rejected\''\<close>
\<close>

definition delete_confirmed :: "db \<Rightarrow> uuid \<Rightarrow> jsstring option \<Rightarrow> db" where
  "delete_confirmed d userId batch_id =
     d\<lparr>staged_transactions :=
         filter (\<lambda>s. \<not> (if truthy batch_id
                         then s_user_id s = userId \<and> Some (s_batch_id s) = batch_id
                         else s_user_id s = userId \<and> sql_ne (s_status s) (Some (js ''rejected''))))
           (staged_transactions d)\<rparr>"

text \<open>
  The answers of the routes. The message of a confirmation is a function of its two
  counters and is not kept; \<open>errors.slice(0, 5)\<close> is.
\<close>

type_synonym staged_view =
  "staged_tx \<times> jsstring option \<times> jsstring option \<times> jsstring option \<times> jsstring option"

datatype response =
    Staged_rows "staged_view list"
  | Updated_row staged_tx
  | Updated_count nat
  | Confirmed nat nat "(nat \<times> pg_error) list"
  | Cleared
  | Rules "category_rule list"
  | Bad_request
  | Not_found

text \<open>
  The handler. The statement that recomputes the balances of the caller's accounts
  runs inside its own \<^verbatim>\<open>try { ... } catch {}\<close> and writes only a balance column,
  which is not part of the model.
\<close>

definition confirm :: "uuid \<Rightarrow> jsstring option \<Rightarrow> db \<Rightarrow> response \<times> db" where
  "confirm userId batch_id d =
     (let staged = select_staged d userId batch_id in
      if staged = [] then (Bad_request, d)
      else
        (let st = confirm_rows userId \<lparr>cs_db = d, imported = 0, skipped = 0, errors = []\<rparr> staged
         in (Confirmed (imported st) (skipped st) (take 5 (errors st)),
             delete_confirmed (cs_db st) userId batch_id)))"

text \<open>
  The two CHECK constraints of the transactions table, as a predicate on a ledger row.
\<close>

definition ledger_ok :: "ledger_tx \<Rightarrow> bool" where
  "ledger_ok t \<longleftrightarrow> t_debit_account_id t \<noteq> t_credit_account_id t \<and> 0 < t_amount t"

text \<open>
  A staged row is settled in a database when the loop body leaves the database as it is:
  an account is missing, the duplicate check finds a row, or the insert is refused.
\<close>

definition settled :: "uuid \<Rightarrow> db \<Rightarrow> staged_tx \<Rightarrow> bool" where
  "settled u d tx \<longleftrightarrow>
     s_suggested_debit_account_id tx = None \<or> s_suggested_credit_account_id tx = None \<or>
     dupCheck d u tx \<noteq> [] \<or> (\<exists>e. insert_transaction d u tx = Inl e)"

section \<open>Rule patterns and the rule corpus, in the words of the specification\<close>

text \<open>
  The alphabetic tokens of a description: its maximal runs of ASCII letters. This is the
  wording of the specification; \<open>words_of\<close> above is the code.
\<close>

function letter_runs :: "jsstring \<Rightarrow> jsstring list" where
  "letter_runs [] = []"
| "letter_runs (c # cs) =
     (if is_alpha c then (c # takeWhile is_alpha cs) # letter_runs (dropWhile is_alpha cs)
      else letter_runs cs)"
  by pat_completeness auto
termination
  by (relation "measure length") (auto simp: length_dropWhile_le less_Suc_eq_le)

text \<open>
  The rule corpus is keyed by (owner, pattern): the rule stored under a key.
\<close>

definition lookup_rule :: "category_rule list \<Rightarrow> uuid \<Rightarrow> jsstring \<Rightarrow> category_rule option" where
  "lookup_rule rules u p = find (\<lambda>r. r_user_id r = u \<and> r_pattern r = p) rules"

section \<open>The review routes\<close>

text \<open>
  A field of a JSON request body is absent (\<open>undefined\<close>), \<open>null\<close> or a value.
\<close>

datatype 'a jsfield = Undefined | Null | Val 'a

record staged_update =
  u_suggested_category :: "jsstring jsfield"
  u_suggested_debit_account_id :: "uuid jsfield"
  u_suggested_credit_account_id :: "uuid jsfield"
  u_transaction_type :: "jsstring jsfield"
  u_description :: "jsstring jsfield"
  u_amount :: "decimal2 jsfield"
  u_status :: "jsstring jsfield"

text \<open>
  GET /staged:
  \<^verbatim>\<open>SELECT s.*, da.account_name, da.account_type, ca.account_name, ca.account_type
    FROM staged_transactions s
    LEFT JOIN accounts da ON s.suggested_debit_account_id = da.account_id
    LEFT JOIN accounts ca ON s.suggested_credit_account_id = ca.account_id
    WHERE s.user_id = $1 AND s.status = 'pending' [AND s.batch_id = $2]
    ORDER BY s.date ASC, s.id ASC\<close>
  (ascending order puts NULL dates last).
\<close>

definition left_join :: "account list \<Rightarrow> uuid option \<Rightarrow> account option list" where
  "left_join as k =
     (case filter (\<lambda>a. sql_eq k (Some (a_account_id a))) as of
        [] \<Rightarrow> [None]
      | m # ms \<Rightarrow> map Some (m # ms))"

definition joined_rows :: "account list \<Rightarrow> staged_tx \<Rightarrow> staged_view list" where
  "joined_rows as s =
     concat (map (\<lambda>da. map (\<lambda>ca. (s, map_option a_account_name da, map_option a_account_type da,
                                       map_option a_account_name ca, map_option a_account_type ca))
                           (left_join as (s_suggested_credit_account_id s)))
                 (left_join as (s_suggested_debit_account_id s)))"

definition order_key :: "staged_view \<Rightarrow> (nat \<times> nat) \<times> nat" where
  "order_key v = ((case s_date (fst v) of None \<Rightarrow> (1, 0) | Some dt \<Rightarrow> (0, dt)), s_id (fst v))"

definition get_staged :: "uuid \<Rightarrow> jsstring option \<Rightarrow> db \<Rightarrow> response \<times> db" where
  "get_staged userId batch_id d =
     (Staged_rows
        (sort_key order_key
           (concat (map (joined_rows (accounts d))
              (filter (\<lambda>s. s_user_id s = userId \<and> sql_eq (s_status s) (Some (js ''pending'')) \<and>
                           (truthy batch_id \<longrightarrow> Some (s_batch_id s) = batch_id))
                 (staged_transactions d))))), d)"

text \<open>
  PUT /staged/:id: every field of the body that is not \<open>undefined\<close> is written (the two
  account ids as \<open>value || null\<close>);
  \<^verbatim>\<open>UPDATE staged_transactions SET ... WHERE id = $n AND user_id = $m RETURNING *\<close>.
\<close>

definition set_field :: "'a jsfield \<Rightarrow> 'a option \<Rightarrow> 'a option" where
  "set_field f old = (case f of Undefined \<Rightarrow> old | Null \<Rightarrow> None | Val v \<Rightarrow> Some v)"

definition apply_update :: "staged_update \<Rightarrow> staged_tx \<Rightarrow> staged_tx" where
  "apply_update upd s =
     s\<lparr>s_suggested_category := set_field (u_suggested_category upd) (s_suggested_category s),
       s_suggested_debit_account_id :=
         set_field (u_suggested_debit_account_id upd) (s_suggested_debit_account_id s),
       s_suggested_credit_account_id :=
         set_field (u_suggested_credit_account_id upd) (s_suggested_credit_account_id s),
       s_transaction_type := set_field (u_transaction_type upd) (s_transaction_type s),
       s_description := set_field (u_description upd) (s_description s),
       s_amount := set_field (u_amount upd) (s_amount s),
       s_status := set_field (u_status upd) (s_status s)\<rparr>"

definition no_fields :: "staged_update \<Rightarrow> bool" where
  "no_fields upd \<longleftrightarrow>
     u_suggested_category upd = Undefined \<and> u_suggested_debit_account_id upd = Undefined \<and>
     u_suggested_credit_account_id upd = Undefined \<and> u_transaction_type upd = Undefined \<and>
     u_description upd = Undefined \<and> u_amount upd = Undefined \<and> u_status upd = Undefined"

definition put_staged :: "uuid \<Rightarrow> nat \<Rightarrow> staged_update \<Rightarrow> db \<Rightarrow> response \<times> db" where
  "put_staged userId i upd d =
     (if no_fields upd then (Bad_request, d)
      else
        (let d' = d\<lparr>staged_transactions :=
                      map (\<lambda>s. if s_id s = i \<and> s_user_id s = userId then apply_update upd s else s)
                        (staged_transactions d)\<rparr>
         in case filter (\<lambda>s. s_id s = i \<and> s_user_id s = userId) (staged_transactions d') of
              [] \<Rightarrow> (Not_found, d')
            | r # rs \<Rightarrow> (Updated_row r, d')))"

text \<open>
  PUT /staged-bulk: only the truthy fields of \<open>updates\<close> are written (a string that is
  not empty, an account id), and the description and the amount are not among them;
  every id for which the statement ran is counted.
\<close>

definition set_truthy_str :: "jsstring jsfield \<Rightarrow> jsstring option \<Rightarrow> jsstring option" where
  "set_truthy_str f old = (case f of Val v \<Rightarrow> (if v \<noteq> [] then Some v else old) | _ \<Rightarrow> old)"

definition set_truthy_id :: "uuid jsfield \<Rightarrow> uuid option \<Rightarrow> uuid option" where
  "set_truthy_id f old = (case f of Val v \<Rightarrow> Some v | _ \<Rightarrow> old)"

definition apply_bulk :: "staged_update \<Rightarrow> staged_tx \<Rightarrow> staged_tx" where
  "apply_bulk upd s =
     s\<lparr>s_suggested_category := set_truthy_str (u_suggested_category upd) (s_suggested_category s),
       s_suggested_debit_account_id :=
         set_truthy_id (u_suggested_debit_account_id upd) (s_suggested_debit_account_id s),
       s_suggested_credit_account_id :=
         set_truthy_id (u_suggested_credit_account_id upd) (s_suggested_credit_account_id s),
       s_status := set_truthy_str (u_status upd) (s_status s),
       s_transaction_type := set_truthy_str (u_transaction_type upd) (s_transaction_type s)\<rparr>"

definition truthy_str :: "jsstring jsfield \<Rightarrow> bool" where
  "truthy_str f = (case f of Val v \<Rightarrow> v \<noteq> [] | _ \<Rightarrow> False)"

definition truthy_id :: "uuid jsfield \<Rightarrow> bool" where
  "truthy_id f = (case f of Val v \<Rightarrow> True | _ \<Rightarrow> False)"

definition bulk_fields :: "staged_update \<Rightarrow> bool" where
  "bulk_fields upd \<longleftrightarrow>
     truthy_str (u_suggested_category upd) \<or> truthy_id (u_suggested_debit_account_id upd) \<or>
     truthy_id (u_suggested_credit_account_id upd) \<or> truthy_str (u_status upd) \<or>
     truthy_str (u_transaction_type upd)"

definition bulk_step :: "uuid \<Rightarrow> staged_update \<Rightarrow> db \<times> nat \<Rightarrow> nat \<Rightarrow> db \<times> nat" where
  "bulk_step userId upd st i =
     (if bulk_fields upd
      then ((fst st)\<lparr>staged_transactions :=
                map (\<lambda>s. if s_id s = i \<and> s_user_id s = userId then apply_bulk upd s else s)
                  (staged_transactions (fst st))\<rparr>, snd st + 1)
      else st)"

definition put_staged_bulk :: "uuid \<Rightarrow> nat list \<Rightarrow> staged_update \<Rightarrow> db \<Rightarrow> response \<times> db" where
  "put_staged_bulk userId ids upd d =
     (if ids = [] then (Bad_request, d)
      else (let st = foldl (bulk_step userId upd) (d, 0) ids in (Updated_count (snd st), fst st)))"

text \<open>
  DELETE /staged:
  \<^verbatim>\<open>DELETE FROM staged_transactions WHERE user_id = $1 [AND batch_id = $2]\<close>
\<close>

definition delete_staged :: "uuid \<Rightarrow> jsstring option \<Rightarrow> db \<Rightarrow> response \<times> db" where
  "delete_staged userId batch_id d =
     (Cleared,
      d\<lparr>staged_transactions :=
          filter (\<lambda>s. \<not> (s_user_id s = userId \<and> (truthy batch_id \<longrightarrow> Some (s_batch_id s) = batch_id)))
            (staged_transactions d)\<rparr>)"

text \<open>
  The rule corpus of a user, \<^verbatim>\<open>SELECT * FROM category_rules WHERE user_id = $1
  ORDER BY hit_count DESC\<close>: rules with the same hit count come in the order of the table.
  GET /rules adds \<^verbatim>\<open>LIMIT 200\<close>.
\<close>

definition select_rules :: "db \<Rightarrow> uuid \<Rightarrow> category_rule list" where
  "select_rules d userId =
     sort_key (\<lambda>r. - r_hit_count r) (filter (\<lambda>r. r_user_id r = userId) (category_rules d))"

definition get_rules :: "uuid \<Rightarrow> db \<Rightarrow> response \<times> db" where
  "get_rules userId d = (Rules (take 200 (select_rules d userId)), d)"

text \<open>
  The router: every route runs behind \<^verbatim>\<open>authenticateToken\<close>, which supplies the
  caller's \<^verbatim>\<open>req.user.userId\<close>.
\<close>

datatype request =
    Get_staged "jsstring option"
  | Put_staged nat staged_update
  | Put_staged_bulk "nat list" staged_update
  | Post_confirm "jsstring option"
  | Delete_staged "jsstring option"
  | Get_rules

fun handle :: "uuid \<Rightarrow> request \<Rightarrow> db \<Rightarrow> response \<times> db" where
  "handle userId (Get_staged batch_id) d = get_staged userId batch_id d"
| "handle userId (Put_staged i upd) d = put_staged userId i upd d"
| "handle userId (Put_staged_bulk ids upd) d = put_staged_bulk userId ids upd d"
| "handle userId (Post_confirm batch_id) d = confirm userId batch_id d"
| "handle userId (Delete_staged batch_id) d = delete_staged userId batch_id d"
| "handle userId Get_rules d = get_rules userId d"

section \<open>Owners\<close>

text \<open>
  The rows of the two import tables that belong to a user, and the relation between two
  databases that differ at most in the staged rows and rules of other users. The
  relation \<open>others_untouched\<close> says that a request left those of other users as they
  were.
\<close>

definition own_staged :: "uuid \<Rightarrow> db \<Rightarrow> staged_tx list" where
  "own_staged u d = filter (\<lambda>s. s_user_id s = u) (staged_transactions d)"

definition own_rules :: "uuid \<Rightarrow> db \<Rightarrow> category_rule list" where
  "own_rules u d = filter (\<lambda>r. r_user_id r = u) (category_rules d)"

definition same_for :: "uuid \<Rightarrow> db \<Rightarrow> db \<Rightarrow> bool" where
  "same_for u d1 d2 \<longleftrightarrow>
     own_staged u d1 = own_staged u d2 \<and> own_rules u d1 = own_rules u d2 \<and>
     transactions d1 = transactions d2 \<and> accounts d1 = accounts d2"

definition others_untouched :: "uuid \<Rightarrow> db \<Rightarrow> db \<Rightarrow> bool" where
  "others_untouched u d d' \<longleftrightarrow>
     filter (\<lambda>s. s_user_id s \<noteq> u) (staged_transactions d') =
       filter (\<lambda>s. s_user_id s \<noteq> u) (staged_transactions d) \<and>
     filter (\<lambda>r. r_user_id r \<noteq> u) (category_rules d') =
       filter (\<lambda>r. r_user_id r \<noteq> u) (category_rules d)"

text \<open>
  The UPDATE of the two editing routes, on the rows with the given id and owner.
\<close>

definition edit_rows :: "uuid \<Rightarrow> nat \<Rightarrow> (staged_tx \<Rightarrow> staged_tx) \<Rightarrow> staged_tx list \<Rightarrow> staged_tx list" where
  "edit_rows u i f xs = map (\<lambda>s. if s_id s = i \<and> s_user_id s = u then f s else s) xs"

text \<open>Two runs of the confirmation loop that agree on the caller's data and on the counters.\<close>

definition st_rel :: "uuid \<Rightarrow> confirm_state \<Rightarrow> confirm_state \<Rightarrow> bool" where
  "st_rel u st1 st2 \<longleftrightarrow>
     same_for u (cs_db st1) (cs_db st2) \<and> imported st1 = imported st2 \<and>
     skipped st1 = skipped st2 \<and> errors st1 = errors st2"

section \<open>Parsed transactions and the classification engine\<close>

text \<open>
  A JavaScript number, as far as the import needs it: not a number, a finite value or an
  infinity. Finite values are exact rationals; the rounding of double precision is not
  modelled.
\<close>

datatype jsnum = NaN | Num rat | PosInf | NegInf

text \<open>
  What the parsers produce: \<^verbatim>\<open>{ date, description, amount, transaction_type, balance }\<close>.
\<close>

record parsed_tx =
  p_date :: jsstring
  p_description :: jsstring
  p_amount :: jsnum
  p_transaction_type :: jsstring
  p_balance :: "jsnum option"














text \<open>
  The learned branch and the test \<^verbatim>\<open>category === 'Uncategorized'\<close> of the default
  branch agree as long as no stored rule has the category 'Uncategorized'; the
  confirmation never stores one.
\<close>

definition no_uncategorized :: "category_rule list \<Rightarrow> bool" where
  "no_uncategorized rules \<longleftrightarrow> (\<forall>r \<in> set rules. r_category r \<noteq> Some (js ''Uncategorized''))"

section \<open>Value parsers\<close>

text \<open>The value of a string of decimal digits.\<close>

definition digits_val :: "jsstring \<Rightarrow> nat" where
  "digits_val ds = foldl (\<lambda>a c. 10 * a + (c - 48)) 0 ds"

text \<open>
  \<open>parseFloat\<close> of ECMAScript: leading white space is skipped and the longest prefix
  that is a decimal literal is read (an optional sign; then \<open>Infinity\<close>, or digits with
  an optional fraction, or a fraction alone; then an optional exponent, which counts only
  when it has a digit). A string without such a prefix gives \<open>NaN\<close>.
\<close>

definition exponent :: "jsstring \<Rightarrow> int" where
  "exponent r =
     (case r of
        [] \<Rightarrow> 0
      | c # cs \<Rightarrow>
          if c = 101 \<or> c = 69 then
            (let neg = (cs \<noteq> [] \<and> hd cs = 45);
                 ds = takeWhile is_digit (if cs \<noteq> [] \<and> (hd cs = 43 \<or> hd cs = 45) then tl cs else cs)
             in if ds = [] then 0
                else if neg then - int (digits_val ds) else int (digits_val ds))
          else 0)"

definition scale10 :: "rat \<Rightarrow> int \<Rightarrow> rat" where
  "scale10 m e = (if 0 \<le> e then m * 10 ^ nat e else m / 10 ^ nat (- e))"

definition parseFloat :: "jsstring \<Rightarrow> jsnum" where
  "parseFloat str =
     (let s = dropWhile is_space str;
          neg = (s \<noteq> [] \<and> hd s = 45);
          r = (if s \<noteq> [] \<and> (hd s = 43 \<or> hd s = 45) then tl s else s)
      in if starts_with r (js ''Infinity'') then (if neg then NegInf else PosInf)
         else
           (let ip = takeWhile is_digit r;
                r1 = dropWhile is_digit r;
                dot = (r1 \<noteq> [] \<and> hd r1 = 46);
                fp = (if dot then takeWhile is_digit (tl r1) else []);
                r2 = (if dot then dropWhile is_digit (tl r1) else r1)
            in if ip = [] \<and> fp = [] then NaN
               else
                 (let m = scale10 (of_nat (digits_val (ip @ fp)) / 10 ^ length fp) (exponent r2)
                  in Num (if neg then - m else m))))"

text \<open>
  "Parse amount (Indian format: 1,23,456.78)":
  \<^verbatim>\<open>if (!str) return 0;
    str = str.toString().trim().replace(/[<rupee sign>\s]/g, '');
    const cleaned = str.replace(/,/g, '');
    const num = parseFloat(cleaned);
    return isNaN(num) ? 0 : Math.abs(num);\<close>
  The rupee sign is the code unit U+20B9, 8377.
\<close>

definition parseAmount :: "jsstring \<Rightarrow> jsnum" where
  "parseAmount str =
     (if str = [] then Num 0
      else
        (let s = filter (\<lambda>c. \<not> (c = 8377 \<or> is_space c)) (trim str);
             cleaned = filter (\<lambda>c. c \<noteq> 44) s
         in case parseFloat cleaned of
              NaN \<Rightarrow> Num 0
            | Num r \<Rightarrow> Num \<bar>r\<bar>
            | PosInf \<Rightarrow> PosInf
            | NegInf \<Rightarrow> PosInf))"



text \<open>
  "Generic date detection". \<open>split3\<close> reads a string as three groups with one
  separator character between them; the separators of the four patterns are not members
  of the groups, so the first group ends at the first separator.
\<close>

definition is_date_sep :: "nat \<Rightarrow> bool" where
  "is_date_sep c \<longleftrightarrow> c = 47 \<or> c = 45 \<or> c = 46"

definition is_mon_sep :: "nat \<Rightarrow> bool" where
  "is_mon_sep c \<longleftrightarrow> is_space c \<or> c = 45"

definition split3 :: "(nat \<Rightarrow> bool) \<Rightarrow> jsstring \<Rightarrow> (jsstring \<times> jsstring \<times> jsstring) option" where
  "split3 sep s =
     (let a = takeWhile (\<lambda>c. \<not> sep c) s; r1 = dropWhile (\<lambda>c. \<not> sep c) s
      in case r1 of
           [] \<Rightarrow> None
         | c1 # s2 \<Rightarrow>
             (let b = takeWhile (\<lambda>c. \<not> sep c) s2; r2 = dropWhile (\<lambda>c. \<not> sep c) s2
              in case r2 of
                   [] \<Rightarrow> None
                 | c2 # c \<Rightarrow> Some (a, b, c)))"

definition all_digits :: "jsstring \<Rightarrow> bool" where
  "all_digits s \<longleftrightarrow> (\<forall>c \<in> set s. is_digit c)"

definition digits_1_2 :: "jsstring \<Rightarrow> bool" where
  "digits_1_2 s \<longleftrightarrow> all_digits s \<and> (length s = 1 \<or> length s = 2)"

definition padStart2 :: "jsstring \<Rightarrow> jsstring" where
  "padStart2 s = (if length s < 2 then replicate (2 - length s) 48 @ s else s)"

definition months :: "(jsstring \<times> jsstring) list" where
  "months = map (\<lambda>(k, v). (js k, js v))
     [(''jan'', ''01''), (''feb'', ''02''), (''mar'', ''03''), (''apr'', ''04''), (''may'', ''05''),
      (''jun'', ''06''), (''jul'', ''07''), (''aug'', ''08''), (''sep'', ''09''), (''oct'', ''10''),
      (''nov'', ''11''), (''dec'', ''12'')]"

text \<open>
  The three numeric patterns, in the order of the source:
  \<^verbatim>\<open>/^(\d{1,2})[\/\-.](\d{1,2})[\/\-.](\d{4})$/\<close>,
  \<^verbatim>\<open>/^(\d{1,2})[\/\-.](\d{1,2})[\/\-.](\d{2})$/\<close> with
  \<^verbatim>\<open>parseInt(m[3]) > 50 ? '19' + m[3] : '20' + m[3]\<close>, and
  \<^verbatim>\<open>/^(\d{4})[\/\-.](\d{1,2})[\/\-.](\d{1,2})$/\<close>.
\<close>

definition numeric_date :: "jsstring \<Rightarrow> jsstring option" where
  "numeric_date str =
     (case split3 is_date_sep str of
        None \<Rightarrow> None
      | Some (a, b, c) \<Rightarrow>
          if digits_1_2 a \<and> digits_1_2 b \<and> all_digits c \<and> length c = 4
            then Some (c @ js ''-'' @ padStart2 b @ js ''-'' @ padStart2 a)
          else if digits_1_2 a \<and> digits_1_2 b \<and> all_digits c \<and> length c = 2
            then Some ((if 50 < digits_val c then js ''19'' @ c else js ''20'' @ c) @
                       js ''-'' @ padStart2 b @ js ''-'' @ padStart2 a)
          else if all_digits a \<and> length a = 4 \<and> digits_1_2 b \<and> digits_1_2 c
            then Some (a @ js ''-'' @ padStart2 b @ js ''-'' @ padStart2 c)
          else None)"

text \<open>
  "DD Mon YYYY or DD-Mon-YYYY": \<^verbatim>\<open>/^(\d{1,2})[\s\-]([A-Za-z]{3})[\s\-](\d{2,4})$/\<close>
  with \<^verbatim>\<open>mon = months[m[2].toLowerCase()]\<close> and
  \<^verbatim>\<open>yr = m[3].length === 2 ? '20' + m[3] : m[3]\<close>; a name that is not a month
  falls through.
\<close>

definition month_date :: "jsstring \<Rightarrow> jsstring option" where
  "month_date str =
     (case split3 is_mon_sep str of
        None \<Rightarrow> None
      | Some (a, b, c) \<Rightarrow>
          if digits_1_2 a \<and> length b = 3 \<and> (\<forall>x \<in> set b. is_alpha x) \<and>
             all_digits c \<and> 2 \<le> length c \<and> length c \<le> 4
            then (case map_of months (toLowerCase b) of
                    None \<Rightarrow> None
                  | Some mm \<Rightarrow>
                      Some ((if length c = 2 then js ''20'' @ c else c) @
                            js ''-'' @ mm @ js ''-'' @ padStart2 a))
          else None)"

text \<open>
  \<^verbatim>\<open>parseDate(str)\<close>. The last resort, \<^verbatim>\<open>new Date(str)\<close> with
  \<^verbatim>\<open>toISOString().split('T')[0]\<close>, depends on the JavaScript engine and is the
  parameter \<open>native\<close>: the ISO date of a string that the engine can read.
\<close>

definition parseDate :: "(jsstring \<Rightarrow> jsstring option) \<Rightarrow> jsstring \<Rightarrow> jsstring option" where
  "parseDate native str =
     (if str = [] then None
      else
        (case numeric_date (trim str) of
           Some ymd \<Rightarrow> Some ymd
         | None \<Rightarrow>
             (case month_date (trim str) of
                Some ymd \<Rightarrow> Some ymd
              | None \<Rightarrow> native (trim str))))"

section \<open>The page-layout reconstructor\<close>

text \<open>
  A positioned piece of text of a PDF page, and a row: its items from left to right and
  their texts joined by two spaces. The model starts from the rows
  (\<^verbatim>\<open>textRows\<close>); reading the file and clustering the items by their vertical
  position come before and are not part of it.
\<close>

record pdf_item =
  i_text :: jsstring
  i_x :: int
  i_y :: int
  i_page :: nat

record text_row =
  tr_items :: "pdf_item list"
  tr_text :: jsstring

definition text_row_of :: "pdf_item list \<Rightarrow> text_row" where
  "text_row_of row =
     \<lparr>tr_items = sort_key i_x row, tr_text = join (js ''  '') (map i_text (sort_key i_x row))\<rparr>"

subsection \<open>Regular expressions of the parser\<close>

definition is_word :: "nat \<Rightarrow> bool" where
  "is_word c \<longleftrightarrow> is_alpha c \<or> is_digit c \<or> c = 95"

definition is_digit_or_comma :: "nat \<Rightarrow> bool" where
  "is_digit_or_comma c \<longleftrightarrow> is_digit c \<or> c = 44"

text \<open>\<^verbatim>\<open>/^[\d,]+\.\d{2}/\<close> at the start of a string: the matched text, if any.\<close>

definition amount_at :: "jsstring \<Rightarrow> jsstring option" where
  "amount_at s =
     (let run = takeWhile is_digit_or_comma s in
      if run = [] then None
      else (case dropWhile is_digit_or_comma s of
              c # d1 # d2 # rest \<Rightarrow>
                if c = 46 \<and> is_digit d1 \<and> is_digit d2 then Some (run @ [c, d1, d2]) else None
            | _ \<Rightarrow> None))"

text \<open>\<^verbatim>\<open>/^[\d,]+\.\d{2}$/\<close>, the \<^verbatim>\<open>numericRegex\<close>.\<close>

definition numericRegex :: "jsstring \<Rightarrow> bool" where
  "numericRegex s = (amount_at s = Some s)"

text \<open>
  All matches of \<^verbatim>\<open>/[\d,]+\.\d{2}/g\<close> from left to right. A run of digits and commas
  that is not followed by a point and two digits holds no match, whatever its start.
\<close>

function find_amounts :: "jsstring \<Rightarrow> jsstring list" where
  "find_amounts [] = []"
| "find_amounts (c # cs) =
     (if is_digit_or_comma c then
        (case amount_at (c # cs) of
           Some m \<Rightarrow> m # find_amounts (drop (length m) (c # cs))
         | None \<Rightarrow> find_amounts (dropWhile is_digit_or_comma cs))
      else find_amounts cs)"
  by pat_completeness auto
termination
proof (relation "measure length")
  show "wf (measure length)" by simp
next
  fix c :: nat and cs m :: jsstring
  assume "amount_at (c # cs) = Some m"
  then have "m \<noteq> []"
    by (auto simp: amount_at_def Let_def split: if_splits list.splits)
  then show "(drop (length m) (c # cs), c # cs) \<in> measure length"
    by (cases m) auto
next
  fix c :: nat and cs :: jsstring
  show "(dropWhile is_digit_or_comma cs, c # cs) \<in> measure length"
    by (simp add: length_dropWhile_le less_Suc_eq_le)
next
  fix c :: nat and cs :: jsstring
  show "(cs, c # cs) \<in> measure length" by simp
qed

text \<open>
  \<^verbatim>\<open>/^\d{1,2}[\/\-\.]\d{1,2}[\/\-\.]\d{2,4}$/\<close>, the \<^verbatim>\<open>dateRegex\<close> of the
  header-anchored extraction.
\<close>

definition dateRegex :: "jsstring \<Rightarrow> bool" where
  "dateRegex s =
     (case split3 is_date_sep s of
        None \<Rightarrow> False
      | Some (a, b, c) \<Rightarrow>
          digits_1_2 a \<and> digits_1_2 b \<and> all_digits c \<and> 2 \<le> length c \<and> length c \<le> 4)"

text \<open>
  The \<^verbatim>\<open>dateRegex\<close> of the line-based extraction,
  \<^verbatim>\<open>/^(\d{1,2}[\/\-\.]\d{1,2}[\/\-\.]\d{2,4}|\d{1,2}[\s\-][A-Za-z]{3}[\s\-]\d{2,4})/\<close>:
  the matched prefix of a line. A group of one or two digits is the whole run of digits
  at its place, since a separator has to follow; the year is the first four digits of the
  run at its place, or all of them when they are two or three.
\<close>

definition lead_digits_1_2 :: "jsstring \<Rightarrow> (jsstring \<times> jsstring) option" where
  "lead_digits_1_2 s =
     (let d = takeWhile is_digit s in
      if length d = 1 \<or> length d = 2 then Some (d, dropWhile is_digit s) else None)"

definition lead_year :: "jsstring \<Rightarrow> jsstring option" where
  "lead_year s = (let d = takeWhile is_digit s in if 2 \<le> length d then Some (take 4 d) else None)"

definition date_prefix_numeric :: "jsstring \<Rightarrow> jsstring option" where
  "date_prefix_numeric s =
     (case lead_digits_1_2 s of
        Some (a, s1 # r1) \<Rightarrow>
          if is_date_sep s1 then
            (case lead_digits_1_2 r1 of
               Some (b, s2 # r2) \<Rightarrow>
                 if is_date_sep s2 then
                   (case lead_year r2 of Some y \<Rightarrow> Some (a @ [s1] @ b @ [s2] @ y) | None \<Rightarrow> None)
                 else None
             | _ \<Rightarrow> None)
          else None
      | _ \<Rightarrow> None)"

definition date_prefix_month :: "jsstring \<Rightarrow> jsstring option" where
  "date_prefix_month s =
     (case lead_digits_1_2 s of
        Some (a, s1 # r1) \<Rightarrow>
          if is_mon_sep s1 \<and> 4 \<le> length r1 \<and> (\<forall>x \<in> set (take 3 r1). is_alpha x) \<and>
             is_mon_sep (r1 ! 3) then
            (case lead_year (drop 4 r1) of
               Some y \<Rightarrow> Some (a @ [s1] @ take 4 r1 @ y)
             | None \<Rightarrow> None)
          else None
      | _ \<Rightarrow> None)"

definition date_prefix :: "jsstring \<Rightarrow> jsstring option" where
  "date_prefix s =
     (case date_prefix_numeric s of Some m \<Rightarrow> Some m | None \<Rightarrow> date_prefix_month s)"

text \<open>
  \<^verbatim>\<open>/\b(cr|credit|refund|cashback|reversal|payment received)\b/i\<close>: one of the words
  occurs in the line, in any case, with no word character next to it on either side.
  \<open>word_at prev s w\<close> looks at one position, \<open>prev\<close> being the character before it.
\<close>

definition word_at :: "nat option \<Rightarrow> jsstring \<Rightarrow> jsstring \<Rightarrow> bool" where
  "word_at prev s w \<longleftrightarrow>
     (case prev of None \<Rightarrow> True | Some p \<Rightarrow> \<not> is_word p) \<and>
     length w \<le> length s \<and> toLowerCase (take (length w) s) = w \<and>
     (case drop (length w) s of [] \<Rightarrow> True | n # rest \<Rightarrow> \<not> is_word n)"

fun word_in :: "nat option \<Rightarrow> jsstring \<Rightarrow> jsstring \<Rightarrow> bool" where
  "word_in prev [] w = False"
| "word_in prev (c # cs) w = (word_at prev (c # cs) w \<or> word_in (Some c) cs w)"

definition credit_markers :: "jsstring list" where
  "credit_markers =
     map js [''cr'', ''credit'', ''refund'', ''cashback'', ''reversal'', ''payment received'']"

definition credit_marker :: "jsstring \<Rightarrow> bool" where
  "credit_marker line = (\<exists>w \<in> set credit_markers. word_in None line w)"

text \<open>\<^verbatim>\<open>s.replace(/\s+/g, ' ').trim()\<close>\<close>

definition squeeze :: "jsstring \<Rightarrow> jsstring" where
  "squeeze s = trim (join (js '' '') (split_ws s))"

text \<open>
  The group of \<^verbatim>\<open>/^\s*(.*?)\s*[\d,]+\.\d{2}/\<close>: after the leading white space, the
  shortest text without a line terminator such that an amount follows it, white space
  between them skipped.
\<close>

definition is_line_terminator :: "nat \<Rightarrow> bool" where
  "is_line_terminator c \<longleftrightarrow> c = 10 \<or> c = 13 \<or> c = 8232 \<or> c = 8233"

fun lazy_group :: "jsstring \<Rightarrow> jsstring \<Rightarrow> jsstring option" where
  "lazy_group acc [] = None"
| "lazy_group acc (c # cs) =
     (if amount_at (dropWhile is_space (c # cs)) \<noteq> None then Some acc
      else if is_line_terminator c then None
      else lazy_group (acc @ [c]) cs)"

definition descMatch :: "jsstring \<Rightarrow> jsstring option" where
  "descMatch afterDate = lazy_group [] (dropWhile is_space afterDate)"

subsection \<open>Numbers\<close>

text \<open>\<open>n > 0\<close> and \<open>n === 0\<close> on a JavaScript number.\<close>

definition positive :: "jsnum \<Rightarrow> bool" where
  "positive n = (case n of Num r \<Rightarrow> 0 < r | PosInf \<Rightarrow> True | _ \<Rightarrow> False)"

definition is_zero :: "jsnum \<Rightarrow> bool" where
  "is_zero n = (case n of Num r \<Rightarrow> r = 0 | _ \<Rightarrow> False)"

subsection \<open>Bank type and header row\<close>

text \<open>
  "DETECT BANK TYPE": the name of a bank found in the text of all rows, with the suffix
  \<open>_cc\<close> for a credit-card statement.
\<close>

definition bankType_of :: "text_row list \<Rightarrow> jsstring" where
  "bankType_of textRows =
     (let fullText = toLowerCase (join (js '' '') (map tr_text textRows));
          bank =
            (if includes_str fullText (js ''hdfc bank'') then js ''hdfc''
             else if includes_str fullText (js ''state bank of india'') \<or>
                     includes_str fullText (js ''sbi'') then js ''sbi''
             else if includes_str fullText (js ''icici bank'') then js ''icici''
             else if includes_str fullText (js ''axis bank'') then js ''axis''
             else if includes_str fullText (js ''kotak'') then js ''kotak''
             else js ''generic'')
      in if includes_str fullText (js ''credit card'') \<or> includes_str fullText (js ''card number'') \<or>
            includes_str fullText (js ''card no'')
         then bank @ js ''_cc'' else bank)"

definition headerKeywords :: "jsstring list" where
  "headerKeywords =
     map js [''date'', ''narration'', ''description'', ''particulars'', ''withdrawal'', ''deposit'',
             ''debit'', ''credit'', ''balance'', ''chq'', ''ref'']"

definition matchCount :: "text_row \<Rightarrow> nat" where
  "matchCount row =
     length (filter (\<lambda>k. includes_str (toLowerCase (tr_text row)) k) headerKeywords)"

text \<open>
  The loop that sets \<^verbatim>\<open>headerRowIdx\<close>: the index of the first row with at least
  three keywords, \<open>None\<close> for the \<open>-1\<close> of the source.
\<close>

fun headerRowIdx :: "text_row list \<Rightarrow> nat option" where
  "headerRowIdx [] = None"
| "headerRowIdx (row # rows) =
     (if 3 \<le> matchCount row then Some 0 else map_option Suc (headerRowIdx rows))"

subsection \<open>Column positions\<close>

text \<open>
  \<^verbatim>\<open>colMap\<close>. A position is tested by its truthiness throughout, so that a column
  at x = 0 counts as not found.
\<close>

record col_map =
  col_date :: "int option"
  col_narration :: "int option"
  col_ref :: "int option"
  col_valueDate :: "int option"
  col_withdrawal :: "int option"
  col_deposit :: "int option"
  col_balance :: "int option"

definition found :: "int option \<Rightarrow> bool" where
  "found x = (case x of None \<Rightarrow> False | Some v \<Rightarrow> v \<noteq> 0)"

definition map_header_item :: "col_map \<Rightarrow> pdf_item \<Rightarrow> col_map" where
  "map_header_item colMap item =
     (let t = toLowerCase (i_text item); has = (\<lambda>w. includes_str t (js w)) in
      if has ''date'' \<and> \<not> has ''value'' \<and> \<not> found (col_date colMap)
        then colMap\<lparr>col_date := Some (i_x item)\<rparr>
      else if (has ''value'' \<and> has ''dt'') \<or> (has ''value'' \<and> has ''date'')
        then colMap\<lparr>col_valueDate := Some (i_x item)\<rparr>
      else if has ''narration'' \<or> has ''description'' \<or> has ''particulars'' \<or> has ''detail''
        then colMap\<lparr>col_narration := Some (i_x item)\<rparr>
      else if has ''chq'' \<or> has ''ref'' \<or> has ''cheque''
        then colMap\<lparr>col_ref := Some (i_x item)\<rparr>
      else if has ''withdrawal'' \<or> has ''debit'' \<or> t = js ''dr'' \<or> t = js ''dr.''
        then colMap\<lparr>col_withdrawal := Some (i_x item)\<rparr>
      else if has ''deposit'' \<or> has ''credit'' \<or> t = js ''cr'' \<or> t = js ''cr.''
        then colMap\<lparr>col_deposit := Some (i_x item)\<rparr>
      else if has ''balance'' \<or> has ''closing''
        then colMap\<lparr>col_balance := Some (i_x item)\<rparr>
      else colMap)"

text \<open>
  "If we couldn't find specific withdrawal/deposit, look for "amount" columns": the
  leftmost of two or more becomes the withdrawal column and the rightmost the deposit
  column.
\<close>

definition colMap_of :: "pdf_item list \<Rightarrow> col_map" where
  "colMap_of headerItems =
     (let colMap = foldl map_header_item
            \<lparr>col_date = None, col_narration = None, col_ref = None, col_valueDate = None,
             col_withdrawal = None, col_deposit = None, col_balance = None\<rparr> headerItems;
          amtItems = filter (\<lambda>i. includes_str (toLowerCase (i_text i)) (js ''amount'') \<or>
                                  includes_str (toLowerCase (i_text i)) (js ''amt'')) headerItems
      in if \<not> found (col_withdrawal colMap) \<and> \<not> found (col_deposit colMap) \<and> 2 \<le> length amtItems
         then colMap\<lparr>col_withdrawal := Some (Min (set (map i_x amtItems))),
                      col_deposit := Some (Max (set (map i_x amtItems)))\<rparr>
         else colMap)"

subsection \<open>Header-anchored extraction\<close>

text \<open>
  The values that the loop over the items of one transaction collects.
\<close>

record tx_acc =
  narrationParts :: "jsstring list"
  withdrawal :: jsnum
  deposit :: jsnum
  balance :: "jsnum option"
  refNo :: jsstring

datatype column = Withdrawal | Deposit | Balance

text \<open>
  \<^verbatim>\<open>Object.entries(distances).sort((a, b) => a[1] - b[1])[0]\<close>: the found column
  nearest to x, the earlier of withdrawal, deposit, balance when two are as near.
\<close>

definition closest :: "col_map \<Rightarrow> int \<Rightarrow> column option" where
  "closest colMap x =
     (let distances =
            (if found (col_withdrawal colMap) then [(Withdrawal, \<bar>x - the (col_withdrawal colMap)\<bar>)] else []) @
            (if found (col_deposit colMap) then [(Deposit, \<bar>x - the (col_deposit colMap)\<bar>)] else []) @
            (if found (col_balance colMap) then [(Balance, \<bar>x - the (col_balance colMap)\<bar>)] else [])
      in case sort_key snd distances of [] \<Rightarrow> None | e # es \<Rightarrow> Some (fst e))"

definition first_text :: "pdf_item list \<Rightarrow> jsstring" where
  "first_text its = (case its of [] \<Rightarrow> [] | i # rest \<Rightarrow> i_text i)"

definition map_item :: "col_map \<Rightarrow> tx_acc \<Rightarrow> pdf_item \<Rightarrow> tx_acc" where
  "map_item colMap acc item =
     (let t = i_text item in
      if numericRegex (trim (filter (\<lambda>c. c \<noteq> 44) t)) \<or>
         numericRegex (filter (\<lambda>c. \<not> (c = 44 \<or> is_space c)) t)
      then
        (let val = parseAmount t in
         if is_zero val then acc
         else (case closest colMap (i_x item) of
                 None \<Rightarrow> acc
               | Some Withdrawal \<Rightarrow> acc\<lparr>withdrawal := val\<rparr>
               | Some Deposit \<Rightarrow> acc\<lparr>deposit := val\<rparr>
               | Some Balance \<Rightarrow> acc\<lparr>balance := Some val\<rparr>))
      else if found (col_ref colMap) \<and> \<bar>i_x item - the (col_ref colMap)\<bar> < 60 then
        (if 5 \<le> length (takeWhile is_digit t)
         then acc\<lparr>refNo := trim (refNo acc @ js '' '' @ t)\<rparr>
         else acc\<lparr>narrationParts := narrationParts acc @ [t]\<rparr>)
      else if found (col_valueDate colMap) \<and> \<bar>i_x item - the (col_valueDate colMap)\<bar> < 40 \<and>
              dateRegex t then acc
      else acc\<lparr>narrationParts := narrationParts acc @ [t]\<rparr>)"

text \<open>
  The loop \<^verbatim>\<open>for (const item of txItems)\<close>. The first item, the date, is skipped
  (\<^verbatim>\<open>t === firstItemText && item === items[0]\<close>).
\<close>

definition collect :: "col_map \<Rightarrow> pdf_item list \<Rightarrow> tx_acc" where
  "collect colMap txItems =
     foldl (map_item colMap)
       \<lparr>narrationParts = [], withdrawal = Num 0, deposit = Num 0, balance = None, refNo = []\<rparr>
       (tl txItems)"

text \<open>
  One transaction from the items of its rows. The direction is 'debit' when a
  withdrawal was found and 'credit' when only a deposit was; \<^verbatim>\<open>bankType\<close> is not
  consulted.
\<close>

definition build_tx :: "col_map \<Rightarrow> jsstring \<Rightarrow> pdf_item list \<Rightarrow> parsed_tx option" where
  "build_tx colMap date txItems =
     (let acc = collect colMap txItems;
          description = squeeze (join (js '' '') (narrationParts acc));
          amount = (if positive (withdrawal acc) then withdrawal acc
                    else if positive (deposit acc) then deposit acc else Num 0);
          txType = (if positive (withdrawal acc) then js ''debit''
                    else if positive (deposit acc) then js ''credit'' else js ''debit'')
      in if positive amount \<and> description \<noteq> [] then
           Some \<lparr>p_date = date,
                 p_description = (if refNo acc \<noteq> [] then description @ js '' [Ref: '' @ refNo acc @ js '']''
                                  else description),
                 p_amount = amount, p_transaction_type = txType, p_balance = balance acc\<rparr>
         else None)"

text \<open>
  A row continues the transaction before it unless it starts with a date or with a text
  that contains total, opening, closing or statement.
\<close>

definition continues :: "text_row \<Rightarrow> bool" where
  "continues nextRow =
     (let nextFirst = first_text (tr_items nextRow); low = toLowerCase nextFirst in
      \<not> dateRegex nextFirst \<and>
      \<not> (includes_str low (js ''total'') \<or> includes_str low (js ''opening'') \<or>
         includes_str low (js ''closing'') \<or> includes_str low (js ''statement'')))"

text \<open>
  The loop \<^verbatim>\<open>while (i < textRows.length)\<close> over the rows after the header, which
  ends with \<^verbatim>\<open>i = j\<close>: on the list of the rows that are left.
\<close>

function extract_rows :: "(jsstring \<Rightarrow> jsstring option) \<Rightarrow> col_map \<Rightarrow> text_row list \<Rightarrow> parsed_tx list" where
  "extract_rows native colMap [] = []"
| "extract_rows native colMap (row # rows) =
     (if \<not> dateRegex (first_text (tr_items row)) then extract_rows native colMap rows
      else
        (case parseDate native (first_text (tr_items row)) of
           None \<Rightarrow> extract_rows native colMap rows
         | Some date \<Rightarrow>
             (case build_tx colMap date
                     (tr_items row @ concat (map tr_items (takeWhile continues rows))) of
                None \<Rightarrow> []
              | Some tx \<Rightarrow> [tx]) @
             extract_rows native colMap (dropWhile continues rows)))"
  by pat_completeness auto
termination
  by (relation "measure (\<lambda>(native, colMap, rows). length rows)")
     (auto simp: length_dropWhile_le less_Suc_eq_le)

subsection \<open>Line-based extraction\<close>

text \<open>
  The three cases on the number of amounts of a line: the amount, the direction and the
  balance.
\<close>

definition amounts_case :: "jsnum list \<Rightarrow> jsnum \<times> jsstring \<times> jsnum option" where
  "amounts_case amounts =
     (if 3 \<le> length amounts then
        (if positive (amounts ! 0) \<and> (length amounts < 3 \<or> is_zero (amounts ! 1))
           then (amounts ! 0, js ''debit'', Some (last amounts))
         else if positive (amounts ! 1)
           then (amounts ! 1, js ''credit'', Some (last amounts))
         else (amounts ! 0, js ''debit'', Some (last amounts)))
      else if length amounts = 2 then (amounts ! 0, js ''debit'', Some (amounts ! 1))
      else (amounts ! 0, js ''debit'', None))"

text \<open>
  The body of the loop of \<^verbatim>\<open>parsePDFLineBased\<close> for the row \<open>row\<close>, followed by the
  rows \<open>rest\<close>.
\<close>

definition line_tx ::
  "(jsstring \<Rightarrow> jsstring option) \<Rightarrow> jsstring \<Rightarrow> text_row \<Rightarrow> text_row list \<Rightarrow> parsed_tx option" where
  "line_tx native bankType row rest =
     (let line = tr_text row in
      case date_prefix line of
        None \<Rightarrow> None
      | Some dateMatch \<Rightarrow>
          (case parseDate native dateMatch of
             None \<Rightarrow> None
           | Some date \<Rightarrow>
               (let afterDate = drop (length dateMatch) line;
                    amounts = map parseAmount (find_amounts afterDate)
                in if amounts = [] then None
                   else
                     (let d0 = (case descMatch afterDate of None \<Rightarrow> [] | Some g \<Rightarrow> squeeze g);
                          description =
                            (if length d0 < 5 \<and> rest \<noteq> [] \<and> date_prefix (tr_text (hd rest)) = None
                             then trim (d0 @ js '' '' @ tr_text (hd rest)) else d0);
                          amount = fst (amounts_case amounts);
                          balance = snd (snd (amounts_case amounts));
                          txType =
                            (if includes_str bankType (js ''_cc'')
                             then (if credit_marker line then js ''credit'' else js ''debit'')
                             else fst (snd (amounts_case amounts)))
                      in if positive amount then
                           Some \<lparr>p_date = date, p_description = description, p_amount = amount,
                                 p_transaction_type = txType, p_balance = balance\<rparr>
                         else None))))"

fun parsePDFLineBased ::
  "(jsstring \<Rightarrow> jsstring option) \<Rightarrow> text_row list \<Rightarrow> jsstring \<Rightarrow> parsed_tx list" where
  "parsePDFLineBased native [] bankType = []"
| "parsePDFLineBased native (row # rest) bankType =
     (case line_tx native bankType row rest of None \<Rightarrow> [] | Some tx \<Rightarrow> [tx]) @
     parsePDFLineBased native rest bankType"

subsection \<open>parsePDF, from the rows on\<close>

definition parsePDF :: "(jsstring \<Rightarrow> jsstring option) \<Rightarrow> text_row list \<Rightarrow> parsed_tx list" where
  "parsePDF native textRows =
     (case headerRowIdx textRows of
        None \<Rightarrow> parsePDFLineBased native textRows (bankType_of textRows)
      | Some i \<Rightarrow>
          extract_rows native (colMap_of (tr_items (textRows ! i))) (drop (Suc i) textRows))"

subsection \<open>The markers in the words of the specification\<close>

text \<open>
  "Rows whose text contains refund/cashback/reversal/credit/"payment received" markers":
  one of the five occurs in the text of the row, in any case.
\<close>

definition spec_marker :: "jsstring \<Rightarrow> bool" where
  "spec_marker rowText \<longleftrightarrow>
     includes_str (toLowerCase rowText) (js ''refund'') \<or>
     includes_str (toLowerCase rowText) (js ''cashback'') \<or>
     includes_str (toLowerCase rowText) (js ''reversal'') \<or>
     includes_str (toLowerCase rowText) (js ''credit'') \<or>
     includes_str (toLowerCase rowText) (js ''payment received'')"


section \<open>Example data\<close>

definition staged_example ::
  "nat \<Rightarrow> uuid \<Rightarrow> string \<Rightarrow> string option \<Rightarrow> decimal2 option \<Rightarrow> string \<Rightarrow> uuid option \<Rightarrow> uuid option
     \<Rightarrow> string \<Rightarrow> staged_tx" where
  "staged_example i u b descr amt cat dr cr st =
     \<lparr>s_id = i, s_user_id = u, s_batch_id = js b, s_date = Some 19723,
      s_description = map_option js descr, s_amount = amt,
      s_transaction_type = Some (js ''debit''), s_balance = None,
      s_suggested_category = Some (js cat), s_suggested_debit_account_id = dr,
      s_suggested_credit_account_id = cr, s_confidence = Some 50, s_status = Some (js st),
      s_source_file = None\<rparr>"

definition accounts_example :: "account list" where
  "accounts_example =
     [\<lparr>a_account_id = 10, a_user_id = 1, a_account_name = js ''Food'',
       a_account_type = js ''Expense''\<rparr>,
      \<lparr>a_account_id = 20, a_user_id = 1, a_account_name = js ''HDFC Savings'',
       a_account_type = js ''Asset''\<rparr>]"


text \<open>
  A staged row whose description was set to \<open>null\<close> (PUT /staged/:id with
  \<open>{"description": null}\<close>), and a ledger that holds the same transaction already.
\<close>

definition d_null :: db where
  "d_null =
     \<lparr>staged_transactions =
        [staged_example 1 1 ''b1'' None (Some 15000) ''Food'' (Some 10) (Some 20) ''pending''],
      category_rules = [],
      transactions =
        [\<lparr>t_user_id = 1, t_date = 19723, t_amount = 15000, t_description = None,
          t_debit_account_id = 10, t_credit_account_id = 20, t_category = Some (js ''Food'')\<rparr>],
      accounts = accounts_example\<rparr>"

text \<open>A batch with one pending and one rejected row.\<close>

definition d_rejected :: db where
  "d_rejected =
     \<lparr>staged_transactions =
        [staged_example 1 1 ''b1'' (Some ''Coffee Shop'') (Some 15000) ''Food'' (Some 10) (Some 20)
           ''pending'',
         staged_example 2 1 ''b1'' (Some ''Tea Shop'') (Some 5000) ''Food'' (Some 10) (Some 20)
           ''rejected''],
      category_rules = [], transactions = [], accounts = accounts_example\<rparr>"

text \<open>A row whose description has no alphabetic token.\<close>

definition d_digits :: db where
  "d_digits =
     \<lparr>staged_transactions =
        [staged_example 1 1 ''b1'' (Some ''12345'') (Some 15000) ''Food'' (Some 10) (Some 20)
           ''pending''],
      category_rules = [], transactions = [], accounts = accounts_example\<rparr>"

text \<open>A row whose pattern is already in the corpus, confirmed under another category.\<close>

definition d_learn :: db where
  "d_learn =
     \<lparr>staged_transactions =
        [staged_example 1 1 ''b1'' (Some ''Coffee Shop #42'') (Some 15000) ''Dining'' (Some 10)
           (Some 20) ''pending''],
      category_rules =
        [\<lparr>r_user_id = 1, r_pattern = js ''coffee shop'', r_category = Some (js ''Food''),
          r_debit_account_id = Some 10, r_credit_account_id = None, r_hit_count = 2\<rparr>],
      transactions = [], accounts = accounts_example\<rparr>"

text \<open>
  The same staged row of user 1, once alone and once beside a staged row and a rule of user 2.
\<close>

definition d_alone :: db where
  "d_alone =
     \<lparr>staged_transactions =
        [staged_example 1 1 ''b1'' (Some ''Coffee Shop'') (Some 15000) ''Food'' (Some 10) (Some 20)
           ''pending''],
      category_rules = [], transactions = [], accounts = accounts_example\<rparr>"

definition d_shared :: db where
  "d_shared =
     \<lparr>staged_transactions =
        [staged_example 7 2 ''b1'' (Some ''Coffee Shop'') (Some 15000) ''Travel'' (Some 10) (Some 20)
           ''pending'',
         staged_example 1 1 ''b1'' (Some ''Coffee Shop'') (Some 15000) ''Food'' (Some 10) (Some 20)
           ''pending''],
      category_rules =
        [\<lparr>r_user_id = 2, r_pattern = js ''coffee shop'', r_category = Some (js ''Travel''),
          r_debit_account_id = None, r_credit_account_id = None, r_hit_count = 9\<rparr>],
      transactions = [], accounts = accounts_example\<rparr>"



text \<open>
  Two documents that are detected as credit-card statements, as rows of positioned items:
  one with a table header, one without. No date of theirs needs \<^verbatim>\<open>new Date\<close>.
\<close>

definition item :: "string \<Rightarrow> int \<Rightarrow> pdf_item" where
  "item t x = \<lparr>i_text = js t, i_x = x, i_y = 0, i_page = 1\<rparr>"

definition no_native :: "jsstring \<Rightarrow> jsstring option" where
  "no_native s = None"

definition rows_header :: "text_row list" where
  "rows_header = map text_row_of
     [[item ''HDFC Bank Credit Card Statement'' 10],
      [item ''Statement Date'' 10, item ''Credit Limit'' 300],
      [item ''Date'' 10, item ''Narration'' 100, item ''Chq/Ref No'' 250, item ''Withdrawal Amt'' 350,
       item ''Deposit Amt'' 450, item ''Closing Balance'' 550],
      [item ''01/01/2024'' 10, item ''AMAZON PURCHASE'' 100, item ''500.00'' 455,
       item ''1,500.00'' 555],
      [item ''02/01/24'' 10, item ''REFUND FROM SHOP'' 100, item ''0000123456'' 255,
       item ''250.00'' 352, item ''1,250.00'' 555]]"

definition rows_plain :: "text_row list" where
  "rows_plain = map text_row_of
     [[item ''SBI Card Number 1234'' 10],
      [item ''Statement Date'' 10, item ''Credit Limit'' 300],
      [item ''01/01/2024'' 10, item ''INTEREST CREDITED'' 100, item ''100.00'' 400],
      [item ''02/01/2024'' 10, item ''SHOP CR'' 100, item ''200.00'' 400]]"

section \<open>The confirmation loop\<close>

lemmas eval_defs = confirm_def select_staged_def confirm_rows_def confirm_row_def dupCheck_def
  insert_transaction_def learn_rule_def upsert_rule_def delete_confirmed_def sql_ne_def sql_eq_def
  truthy_def staged_example_def accounts_example_def Let_def

lemmas str_defs = js_def trim_def is_space_def is_alpha_def is_digit_def toLowerCase_def
  lower_unit_def pattern_of_def words_of_def split_ws.simps

subsection \<open>Frame lemmas\<close>

lemma learn_rule_frame:
  "staged_transactions (learn_rule d u tx) = staged_transactions d"
  "transactions (learn_rule d u tx) = transactions d"
  "accounts (learn_rule d u tx) = accounts d"
  by (auto simp: learn_rule_def Let_def split: option.splits sum.splits)

lemma insert_transaction_frame:
  assumes "insert_transaction d u tx = Inr d'"
  shows "staged_transactions d' = staged_transactions d"
    and "category_rules d' = category_rules d"
    and "accounts d' = accounts d"
  using assms by (auto simp: insert_transaction_def split: option.splits if_splits)

lemma insert_transaction_ledger:
  assumes "insert_transaction d u tx = Inr d'"
  shows "\<exists>t. transactions d' = transactions d @ [t] \<and> t_user_id t = u \<and>
           Some (t_date t) = s_date tx \<and> Some (t_amount t) = s_amount tx \<and>
           t_description t = s_description tx \<and>
           Some (t_debit_account_id t) = s_suggested_debit_account_id tx \<and>
           Some (t_credit_account_id t) = s_suggested_credit_account_id tx \<and>
           t_category t = s_suggested_category tx \<and>
           t_debit_account_id t \<noteq> t_credit_account_id t \<and> 0 < t_amount t"
  using assms by (auto simp: insert_transaction_def split: option.splits if_splits)

lemma confirm_row_frame:
  "staged_transactions (cs_db (confirm_row u st tx)) = staged_transactions (cs_db st)"
  "accounts (cs_db (confirm_row u st tx)) = accounts (cs_db st)"
  by (auto simp: confirm_row_def learn_rule_frame insert_transaction_frame split: sum.splits)

lemma confirm_row_ledger:
  "\<exists>new. transactions (cs_db (confirm_row u st tx)) = transactions (cs_db st) @ new \<and>
         (\<forall>t \<in> set new. ledger_ok t)"
proof (cases "insert_transaction (cs_db st) u tx")
  case (Inl e)
  then show ?thesis by (simp add: confirm_row_def)
next
  case (Inr d')
  from insert_transaction_ledger [OF Inr] obtain t where
    "transactions d' = transactions (cs_db st) @ [t]" "ledger_ok t"
    by (auto simp: ledger_ok_def)
  then show ?thesis
    using Inr by (auto simp: confirm_row_def learn_rule_frame)
qed

lemma confirm_rows_frame:
  "staged_transactions (cs_db (confirm_rows u st rows)) = staged_transactions (cs_db st)"
  "accounts (cs_db (confirm_rows u st rows)) = accounts (cs_db st)"
  unfolding confirm_rows_def
  by (induction rows arbitrary: st) (simp_all add: confirm_row_frame)

lemma confirm_rows_ledger:
  "\<exists>new. transactions (cs_db (confirm_rows u st rows)) = transactions (cs_db st) @ new \<and>
         (\<forall>t \<in> set new. ledger_ok t)"
  unfolding confirm_rows_def
proof (induction rows arbitrary: st)
  case Nil
  then show ?case by simp
next
  case (Cons tx rows)
  from confirm_row_ledger [of u st tx] obtain n1 where
    n1: "transactions (cs_db (confirm_row u st tx)) = transactions (cs_db st) @ n1"
        "\<forall>t \<in> set n1. ledger_ok t" by blast
  from Cons.IH [of "confirm_row u st tx"] obtain n2 where
    n2: "transactions (cs_db (foldl (confirm_row u) (confirm_row u st tx) rows)) =
           transactions (cs_db (confirm_row u st tx)) @ n2"
        "\<forall>t \<in> set n2. ledger_ok t" by blast
  show ?case
    by (rule exI [of _ "n1 @ n2"]) (use n1 n2 in auto)
qed


subsection \<open>Duplicates\<close>

lemma dupCheck_nonempty:
  "dupCheck d u tx \<noteq> [] \<longleftrightarrow>
     (\<exists>t \<in> set (transactions d). t_user_id t = u \<and> s_date tx = Some (t_date t) \<and>
        s_amount tx = Some (t_amount t) \<and> t_description t \<noteq> None \<and>
        t_description t = s_description tx)"
proof -
  have e: "\<And>(a::'a option) b. sql_eq a b \<longleftrightarrow> (\<exists>x. a = Some x \<and> b = Some x)"
    by (auto simp: sql_eq_def split: option.splits)
  show ?thesis
    unfolding dupCheck_def by (simp add: filter_empty_conv e) (metis option.exhaust)
qed

lemma confirm_row_duplicate:
  assumes "s_suggested_debit_account_id tx \<noteq> None" "s_suggested_credit_account_id tx \<noteq> None"
    and "t \<in> set (transactions (cs_db st))" "t_user_id t = u"
    and "s_date tx = Some (t_date t)" "s_amount tx = Some (t_amount t)"
    and "s_description tx = Some descr" "t_description t = Some descr"
  shows "confirm_row u st tx = st\<lparr>skipped := skipped st + 1\<rparr>"
proof -
  have "dupCheck (cs_db st) u tx \<noteq> []"
    unfolding dupCheck_nonempty using assms by auto
  then show ?thesis using assms by (simp add: confirm_row_def)
qed

lemma settled_row:
  "settled u (cs_db st) tx \<Longrightarrow> cs_db (confirm_row u st tx) = cs_db st"
  by (auto simp: settled_def confirm_row_def)

lemma insert_fail_cong:
  "accounts d' = accounts d \<Longrightarrow> insert_transaction d u tx = Inl e \<Longrightarrow>
     insert_transaction d' u tx = Inl e"
  by (auto simp: insert_transaction_def split: option.splits if_splits)

lemma settled_mono:
  assumes "settled u d tx" "accounts d' = accounts d" "transactions d' = transactions d @ ext"
  shows "settled u d' tx"
proof -
  have "dupCheck d u tx \<noteq> [] \<Longrightarrow> dupCheck d' u tx \<noteq> []"
    unfolding dupCheck_nonempty using assms(3) by auto
  then show ?thesis
    using assms(1,2) insert_fail_cong [of d' d u tx] unfolding settled_def by blast
qed

lemma settled_after:
  assumes "s_description tx \<noteq> None"
  shows "settled u (cs_db (confirm_row u st tx)) tx"
proof (cases "settled u (cs_db st) tx")
  case True
  then show ?thesis by (simp add: settled_row)
next
  case False
  then obtain d' where ins: "insert_transaction (cs_db st) u tx = Inr d'"
    unfolding settled_def by (cases "insert_transaction (cs_db st) u tx") auto
  from insert_transaction_ledger [OF ins] obtain t where
    t: "transactions d' = transactions (cs_db st) @ [t]" "t_user_id t = u"
       "Some (t_date t) = s_date tx" "Some (t_amount t) = s_amount tx"
       "t_description t = s_description tx" by blast
  have db: "cs_db (confirm_row u st tx) = learn_rule d' u tx"
    using False ins by (auto simp: settled_def confirm_row_def)
  have "dupCheck (learn_rule d' u tx) u tx \<noteq> []"
    unfolding dupCheck_nonempty learn_rule_frame using t assms
    by (intro bexI [of _ t]) auto
  then show ?thesis by (simp add: db settled_def)
qed

lemma confirm_rows_settles:
  assumes "\<forall>tx \<in> set rows. s_description tx \<noteq> None"
  shows "\<forall>tx \<in> set rows. settled u (cs_db (confirm_rows u st rows)) tx"
  using assms
proof (induction rows arbitrary: st)
  case Nil
  then show ?case by simp
next
  case (Cons r rows)
  let ?st1 = "confirm_row u st r"
  have step: "confirm_rows u st (r # rows) = confirm_rows u ?st1 rows"
    by (simp add: confirm_rows_def)
  have "settled u (cs_db ?st1) r"
    using Cons.prems by (simp add: settled_after)
  moreover obtain new where
    "transactions (cs_db (confirm_rows u ?st1 rows)) = transactions (cs_db ?st1) @ new"
    using confirm_rows_ledger [of u ?st1 rows] by blast
  ultimately have "settled u (cs_db (confirm_rows u ?st1 rows)) r"
    using settled_mono confirm_rows_frame(2) by blast
  moreover have "\<forall>tx \<in> set rows. settled u (cs_db (confirm_rows u ?st1 rows)) tx"
    using Cons by simp
  ultimately show ?case unfolding step by simp
qed

lemma confirm_rows_settled:
  assumes "\<forall>tx \<in> set rows. settled u (cs_db st) tx"
  shows "cs_db (confirm_rows u st rows) = cs_db st"
  using assms
  by (induction rows arbitrary: st) (simp_all add: confirm_rows_def settled_row)

lemma confirm_rows_idempotent:
  assumes "\<forall>tx \<in> set rows. s_description tx \<noteq> None"
    and "cs_db st' = cs_db (confirm_rows u st rows)"
  shows "cs_db (confirm_rows u st' rows) = cs_db (confirm_rows u st rows)"
  using confirm_rows_settles [OF assms(1), of u st] confirm_rows_settled [of rows u st'] assms(2)
  by simp

lemma select_staged_not_rejected:
  "s \<in> set (select_staged d u b) \<Longrightarrow> s_status s \<noteq> Some (js ''rejected'')"
  by (auto simp: select_staged_def sql_ne_def split: option.splits)

lemma confirm_keeps_rejected:
  assumes "\<not> truthy b" "s \<in> set (staged_transactions d)" "s_status s = Some (js ''rejected'')"
  shows "s \<in> set (staged_transactions (snd (confirm u b d)))"
  using assms
  by (auto simp: confirm_def Let_def delete_confirmed_def confirm_rows_frame sql_ne_def)

section \<open>The rule corpus\<close>

lemma find_map_other:
  assumes "\<And>r. Q (f r) = Q r" "\<And>r. Q r \<Longrightarrow> f r = r"
  shows "find Q (map f rs) = find Q rs"
  using assms by (induction rs) auto

lemma find_map_hit:
  assumes "\<And>r. Q (f r) = Q r"
  shows "find Q (map f rs) = map_option f (find Q rs)"
  using assms by (induction rs) auto

lemma find_append_miss: "\<not> (\<exists>r \<in> set rs. Q r) \<Longrightarrow> find Q (rs @ [x]) = (if Q x then Some x else None)"
  by (induction rs) auto

lemma find_append_other: "\<not> Q x \<Longrightarrow> find Q (rs @ [x]) = find Q rs"
  by (induction rs) auto

lemma find_None_iff': "find Q rs = None \<longleftrightarrow> \<not> (\<exists>r \<in> set rs. Q r)"
  by (induction rs) auto

lemma upsert_rule_cases:
  assumes "upsert_rule rules u p c dr cr = Inr rules'"
  obtains (upd) "\<exists>r \<in> set rules. r_user_id r = u \<and> r_pattern r = p"
      "rules' = map (\<lambda>r. if r_user_id r = u \<and> r_pattern r = p
           then r\<lparr>r_category := c, r_debit_account_id := dr,
                  r_credit_account_id := cr, r_hit_count := r_hit_count r + 1\<rparr> else r) rules"
    | (ins) "\<not> (\<exists>r \<in> set rules. r_user_id r = u \<and> r_pattern r = p)"
      "rules' = rules @ [\<lparr>r_user_id = u, r_pattern = p, r_category = c,
       r_debit_account_id = dr, r_credit_account_id = cr, r_hit_count = 1\<rparr>]"
  using assms unfolding upsert_rule_def by (simp split: if_splits)

lemma upsert_rule_lookup_same:
  assumes "upsert_rule rules u p c dr cr = Inr rules'"
  shows "lookup_rule rules' u p =
     Some \<lparr>r_user_id = u, r_pattern = p, r_category = c, r_debit_account_id = dr,
           r_credit_account_id = cr,
           r_hit_count = (case lookup_rule rules u p of None \<Rightarrow> 1 | Some r \<Rightarrow> r_hit_count r + 1)\<rparr>"
  using assms
proof (cases rule: upsert_rule_cases)
  case upd
  let ?Q = "\<lambda>r. r_user_id r = u \<and> r_pattern r = p"
  let ?f = "\<lambda>r. if r_user_id r = u \<and> r_pattern r = p
           then r\<lparr>r_category := c, r_debit_account_id := dr,
                  r_credit_account_id := cr, r_hit_count := r_hit_count r + 1\<rparr> else r"
  from upd(1) obtain r where r: "find ?Q rules = Some r"
    using find_None_iff' [of ?Q rules] by (cases "find ?Q rules") auto
  then have q: "?Q r"
    by (auto simp: find_Some_iff)
  have "find ?Q (map ?f rules) = map_option ?f (find ?Q rules)"
    by (rule find_map_hit) simp
  then show ?thesis
    unfolding lookup_rule_def upd(2) r using q by simp
next
  case ins
  then have "find (\<lambda>r. r_user_id r = u \<and> r_pattern r = p) rules = None"
    by (simp add: find_None_iff')
  then show ?thesis
    unfolding lookup_rule_def ins(2) using ins(1) by (simp add: find_append_miss)
qed

lemma upsert_rule_lookup_other:
  assumes "upsert_rule rules u p c dr cr = Inr rules'" "u' \<noteq> u \<or> p' \<noteq> p"
  shows "lookup_rule rules' u' p' = lookup_rule rules u' p'"
  using assms(1)
proof (cases rule: upsert_rule_cases)
  case upd
  show ?thesis
    unfolding lookup_rule_def upd(2)
    by (rule find_map_other) (use assms(2) in auto)
next
  case ins
  show ?thesis
    unfolding lookup_rule_def ins(2)
    by (rule find_append_other) (use assms(2) in auto)
qed

lemma upsert_rule_hit_count:
  assumes "upsert_rule rules u p c dr cr = Inr rules'" "\<forall>r \<in> set rules. 1 \<le> r_hit_count r"
  shows "\<forall>r \<in> set rules'. 1 \<le> r_hit_count r"
  using assms(1)
proof (cases rule: upsert_rule_cases)
  case upd
  have "\<forall>r \<in> set rules. 0 \<le> r_hit_count r"
    using assms(2) by force
  then show ?thesis unfolding upd(2) using assms(2) by auto
next
  case ins
  show ?thesis unfolding ins(2) using assms(2) by simp
qed

lemma upsert_rule_ok:
  "length p \<le> 500 \<Longrightarrow> \<exists>rules'. upsert_rule rules u p c dr cr = Inr rules'"
  by (simp add: upsert_rule_def)

lemma learn_rule_hit_count:
  assumes "\<forall>r \<in> set (category_rules d). 1 \<le> r_hit_count r"
  shows "\<forall>r \<in> set (category_rules (learn_rule d u tx)). 1 \<le> r_hit_count r"
proof -
  have "\<And>p c dr cr rules'. upsert_rule (category_rules d) u p c dr cr = Inr rules' \<Longrightarrow>
      \<forall>r \<in> set rules'. 1 \<le> r_hit_count r"
    using upsert_rule_hit_count assms by blast
  then show ?thesis
    using assms unfolding learn_rule_def Let_def
    by (simp split: option.splits sum.splits)
qed

lemma confirm_row_hit_count:
  assumes "\<forall>r \<in> set (category_rules (cs_db st)). 1 \<le> r_hit_count r"
  shows "\<forall>r \<in> set (category_rules (cs_db (confirm_row u st tx))). 1 \<le> r_hit_count r"
proof (cases "insert_transaction (cs_db st) u tx")
  case (Inl e)
  then show ?thesis using assms by (simp add: confirm_row_def)
next
  case (Inr d')
  then have "\<forall>r \<in> set (category_rules d'). 1 \<le> r_hit_count r"
    using assms insert_transaction_frame(2) [OF Inr] by simp
  from learn_rule_hit_count [OF this]
  show ?thesis using assms Inr by (simp add: confirm_row_def)
qed

lemma confirm_rows_hit_count:
  assumes "\<forall>r \<in> set (category_rules (cs_db st)). 1 \<le> r_hit_count r"
  shows "\<forall>r \<in> set (category_rules (cs_db (confirm_rows u st rows))). 1 \<le> r_hit_count r"
  using assms unfolding confirm_rows_def
proof (induction rows arbitrary: st)
  case Nil
  then show ?case by simp
next
  case (Cons tx rows)
  from Cons.IH [OF confirm_row_hit_count [OF Cons.prems]]
  show ?case by simp
qed

lemma confirm_hit_count:
  assumes "\<forall>r \<in> set (category_rules d). 1 \<le> r_hit_count r"
  shows "\<forall>r \<in> set (category_rules (snd (confirm u b d))). 1 \<le> r_hit_count r"
  using confirm_rows_hit_count [of "\<lparr>cs_db = d, imported = 0, skipped = 0, errors = []\<rparr>" u "select_staged d u b"] assms
  by (simp add: confirm_def Let_def delete_confirmed_def)

lemma confirm_row_imported:
  assumes "imported (confirm_row u st tx) = Suc (imported st)"
  shows "\<exists>d1. insert_transaction (cs_db st) u tx = Inr d1 \<and>
           cs_db (confirm_row u st tx) = learn_rule d1 u tx"
  using assms by (auto simp: confirm_row_def split: if_splits sum.splits)

subsection \<open>Tokens\<close>

lemma alpha_not_space: "is_alpha c \<Longrightarrow> \<not> is_space c"
  by (auto simp: is_alpha_def is_space_def)

lemma letter_runs_none: "\<forall>c \<in> set s. \<not> is_alpha c \<Longrightarrow> letter_runs s = []"
  by (induction s) auto

lemma letter_runs_dropWhile:
  "(\<And>c. P c \<Longrightarrow> \<not> is_alpha c) \<Longrightarrow> letter_runs (dropWhile P s) = letter_runs s"
  by (induction s) auto

lemma letter_runs_append:
  "\<forall>c \<in> set ws. \<not> is_alpha c \<Longrightarrow> letter_runs (s @ ws) = letter_runs s"
proof (induction s rule: letter_runs.induct)
  case 1
  then show ?case by (simp add: letter_runs_none)
next
  case (2 c cs)
  have tw: "takeWhile is_alpha ws = []"
    using 2(3) by (cases ws) auto
  have dw: "dropWhile is_alpha ws = ws"
    using 2(3) by (cases ws) auto
  show ?case
  proof (cases "is_alpha c")
    case False
    then show ?thesis using 2 by simp
  next
    case True
    show ?thesis
    proof (cases "\<forall>x \<in> set cs. is_alpha x")
      case all: True
      then have e: "takeWhile is_alpha (cs @ ws) = cs" "dropWhile is_alpha (cs @ ws) = ws"
        "takeWhile is_alpha cs = cs" "dropWhile is_alpha cs = []"
        by (simp_all add: tw dw)
      have "letter_runs ws = []"
        using 2(3) by (simp add: letter_runs_none)
      then show ?thesis using True by (simp add: e)
    next
      case False
      then have "takeWhile is_alpha (cs @ ws) = takeWhile is_alpha cs"
        "dropWhile is_alpha (cs @ ws) = dropWhile is_alpha cs @ ws"
        by (auto simp: takeWhile_append1 dropWhile_append1)
      then show ?thesis using True 2 by simp
    qed
  qed
qed

lemma letter_runs_trim: "letter_runs (trim s) = letter_runs s"
proof -
  let ?t = "dropWhile is_space s"
  have "?t = rev (dropWhile is_space (rev ?t)) @ rev (takeWhile is_space (rev ?t))"
    by (metis rev_append rev_rev_ident takeWhile_dropWhile_id)
  moreover have "\<forall>c \<in> set (rev (takeWhile is_space (rev ?t))). \<not> is_alpha c"
    using alpha_not_space by (auto dest: set_takeWhileD)
  ultimately have "letter_runs ?t = letter_runs (rev (dropWhile is_space (rev ?t)))"
    using letter_runs_append by metis
  then show ?thesis
    using letter_runs_dropWhile [of is_space s] alpha_not_space by (auto simp: trim_def)
qed

lemma split_ws_letter_runs:
  "\<forall>c \<in> set s. is_alpha c \<or> is_space c \<Longrightarrow>
     filter (\<lambda>w. w \<noteq> []) (split_ws s) = letter_runs s"
proof (induction s rule: split_ws.induct)
  case (1 s)
  have eq: "\<And>c. c \<in> set s \<Longrightarrow> (\<not> is_space c) = is_alpha c"
    using 1(2) alpha_not_space by blast
  have tw: "takeWhile (\<lambda>c. \<not> is_space c) s = takeWhile is_alpha s"
    by (rule takeWhile_cong) (simp_all add: eq)
  have dw: "dropWhile (\<lambda>c. \<not> is_space c) s = dropWhile is_alpha s"
    by (rule dropWhile_cong) (simp_all add: eq)
  let ?rest = "dropWhile is_alpha s"
  show ?case
  proof (cases "?rest = []")
    case True
    then have all: "\<forall>c \<in> set s. is_alpha c"
      by (simp add: dropWhile_eq_Nil_conv)
    then have w: "takeWhile is_alpha s = s"
      by simp
    have "letter_runs s = (if s = [] then [] else [s])"
    proof (cases s)
      case Nil
      then show ?thesis by simp
    next
      case (Cons c cs)
      then have a: "is_alpha c" "takeWhile is_alpha cs = cs" and d: "dropWhile is_alpha cs = []"
        using all by simp_all
      have "letter_runs (dropWhile is_alpha cs) = []"
        by (simp only: d letter_runs.simps)
      then show ?thesis using a by (simp add: Cons)
    qed
    then show ?thesis
      using True by (simp add: split_ws.simps [of s] tw dw w Let_def)
  next
    case False
    have sub: "\<forall>c \<in> set (dropWhile is_space (dropWhile (\<lambda>c. \<not> is_space c) s)).
        is_alpha c \<or> is_space c"
      using 1(2) by (meson set_dropWhileD)
    have ne: "dropWhile (\<lambda>c. \<not> is_space c) s \<noteq> []"
      using False dw by simp
    have ih: "filter (\<lambda>w. w \<noteq> []) (split_ws (dropWhile is_space ?rest)) =
        letter_runs (dropWhile is_space ?rest)"
      using 1(1) [OF refl refl ne sub] dw by simp
    have lr: "letter_runs (dropWhile is_space ?rest) = letter_runs ?rest"
      using letter_runs_dropWhile [of is_space ?rest] alpha_not_space by blast
    have sp: "split_ws s = takeWhile is_alpha s # split_ws (dropWhile is_space ?rest)"
      using False by (auto simp: split_ws.simps [of s] tw dw Let_def)
    show ?thesis
    proof (cases s)
      case Nil
      then show ?thesis using False by simp
    next
      case (Cons c cs)
      show ?thesis
      proof (cases "is_alpha c")
        case True
        then show ?thesis
          unfolding sp using ih lr Cons by simp
      next
        case na: False
        then show ?thesis
          unfolding sp using ih lr Cons by simp
      qed
    qed
  qed
qed

lemma letter_runs_replace:
  "letter_runs (map (\<lambda>c. if is_alpha c \<or> is_space c then c else 32) s) = letter_runs s"
proof (induction s rule: letter_runs.induct)
  case 1
  then show ?case by simp
next
  case (2 c cs)
  let ?f = "\<lambda>c. if is_alpha c \<or> is_space c then c else (32::nat)"
  have na: "\<not> is_alpha 32"
    by (simp add: is_alpha_def)
  have fa: "\<And>x. is_alpha (?f x) = is_alpha x"
    using na by simp
  have tw: "takeWhile is_alpha (map ?f cs) = takeWhile is_alpha cs"
    by (induction cs) (use na in auto)
  have dw: "dropWhile is_alpha (map ?f cs) = map ?f (dropWhile is_alpha cs)"
    by (induction cs) (use na in auto)
  show ?case
  proof (cases "is_alpha c")
    case True
    then show ?thesis using 2(1) by (simp add: tw dw)
  next
    case False
    then show ?thesis using 2(2) na by simp
  qed
qed

lemma words_of_letter_runs:
  "words_of description = filter (\<lambda>w. 2 < length w) (letter_runs description)"
proof -
  let ?r = "map (\<lambda>c. if is_alpha c \<or> is_space c then c else 32) description"
  have sp32: "is_space 32"
    by (simp add: is_space_def)
  have "\<forall>c \<in> set (trim ?r). is_alpha c \<or> is_space c"
  proof
    fix c assume "c \<in> set (trim ?r)"
    then have "c \<in> set ?r"
      unfolding trim_def by (metis set_dropWhileD set_rev)
    then show "is_alpha c \<or> is_space c"
      using sp32 by auto
  qed
  then have "filter (\<lambda>w. w \<noteq> []) (split_ws (trim ?r)) = letter_runs description"
    by (simp add: split_ws_letter_runs letter_runs_trim letter_runs_replace)
  moreover have "filter (\<lambda>w. 2 < length w) (split_ws (trim ?r)) =
      filter (\<lambda>w. 2 < length w) (filter (\<lambda>w. w \<noteq> []) (split_ws (trim ?r)))"
    by (auto intro!: filter_cong)
  ultimately show ?thesis
    by (simp add: words_of_def)
qed

lemma join_length: "ws \<noteq> [] \<Longrightarrow> length (hd ws) \<le> length (join sep ws)"
  by (induction sep ws rule: join.induct) auto

lemma pattern_of_length:
  assumes "words_of descr \<noteq> []"
  shows "3 \<le> length (pattern_of descr)"
proof -
  let ?ws = "take 4 (words_of descr)"
  have ne: "?ws \<noteq> []"
    using assms by simp
  have "hd ?ws \<in> set (words_of descr)"
    using assms by (cases "words_of descr") auto
  then have "2 < length (hd ?ws)"
    by (simp add: words_of_def)
  then show ?thesis
    using join_length [OF ne, of "js '' ''"] by (simp add: pattern_of_def toLowerCase_def)
qed

lemma words_of_empty_pattern:
  assumes "words_of descr = []"
  shows "pattern_of descr = []"
  using assms by (simp add: pattern_of_def toLowerCase_def)

lemma learn_rule_upsert:
  assumes "s_suggested_category tx \<noteq> Some (js ''Uncategorized'')"
    and "s_description tx = Some descr" and "words_of descr \<noteq> []"
    and "length (pattern_of descr) \<le> 500"
  shows "upsert_rule (category_rules d) u (pattern_of descr) (s_suggested_category tx)
           (s_suggested_debit_account_id tx) (s_suggested_credit_account_id tx) =
         Inr (category_rules (learn_rule d u tx))"
proof -
  have "descr \<noteq> []"
    using assms(3) by (auto simp: words_of_letter_runs)
  moreover obtain rules' where "upsert_rule (category_rules d) u (pattern_of descr)
      (s_suggested_category tx) (s_suggested_debit_account_id tx)
      (s_suggested_credit_account_id tx) = Inr rules'"
    using upsert_rule_ok [OF assms(4)] by blast
  ultimately show ?thesis
    using assms(1,2) pattern_of_length [OF assms(3)]
    by (simp add: learn_rule_def Let_def)
qed

lemma learn_rule_unchanged:
  assumes "s_suggested_category tx = Some (js ''Uncategorized'') \<or> s_description tx = None \<or>
     (\<exists>descr. s_description tx = Some descr \<and>
        (words_of descr = [] \<or> 500 < length (pattern_of descr)))"
  shows "category_rules (learn_rule d u tx) = category_rules d"
  using assms
  by (auto simp: learn_rule_def Let_def words_of_empty_pattern upsert_rule_def
        split: option.splits sum.splits)

section \<open>Isolation of owners\<close>

subsection \<open>Lists\<close>

lemma filter_own: "filter (\<lambda>x. k x = u \<and> Q x) xs = filter Q (filter (\<lambda>x. k x = u) xs)"
  by (induction xs) auto

lemma filter_map_keep:
  assumes "\<And>x. k (f x) = k x"
  shows "filter (\<lambda>x. k x = u) (map f xs) = map f (filter (\<lambda>x. k x = u) xs)"
  using assms by (induction xs) auto

lemma filter_map_other:
  assumes "\<And>x. k x \<noteq> u \<Longrightarrow> f x = x" "\<And>x. k (f x) = k x"
  shows "filter (\<lambda>x. k x \<noteq> u) (map f xs) = filter (\<lambda>x. k x \<noteq> u) xs"
  using assms by (induction xs) auto

lemma filter_filter_own:
  assumes "\<And>x. \<not> Q x \<Longrightarrow> k x = u"
  shows "filter (\<lambda>x. k x \<noteq> u) (filter Q xs) = filter (\<lambda>x. k x \<noteq> u) xs"
  using assms by (induction xs) auto

lemma filter_commute: "filter P (filter Q xs) = filter Q (filter P xs)"
  by (induction xs) auto

subsection \<open>The routes that only read\<close>

lemma get_staged_isolated:
  assumes "same_for u d1 d2"
  shows "fst (get_staged u b d1) = fst (get_staged u b d2)"
    and "snd (get_staged u b d) = d"
proof -
  let ?Q = "\<lambda>s. sql_eq (s_status s) (Some (js ''pending'')) \<and> (truthy b \<longrightarrow> Some (s_batch_id s) = b)"
  have "\<And>d. filter (\<lambda>s. s_user_id s = u \<and> ?Q s) (staged_transactions d) = filter ?Q (own_staged u d)"
    unfolding own_staged_def by (rule filter_own)
  then show "fst (get_staged u b d1) = fst (get_staged u b d2)"
    using assms by (simp add: get_staged_def same_for_def)
  show "snd (get_staged u b d) = d"
    by (simp add: get_staged_def)
qed

lemma get_rules_isolated:
  assumes "same_for u d1 d2"
  shows "fst (get_rules u d1) = fst (get_rules u d2)"
    and "snd (get_rules u d) = d"
  using assms by (simp_all add: get_rules_def select_rules_def same_for_def own_rules_def)

subsection \<open>The edits\<close>

lemma apply_update_user [simp]: "s_user_id (apply_update upd s) = s_user_id s"
  by (simp add: apply_update_def)

lemma apply_update_id [simp]: "s_id (apply_update upd s) = s_id s"
  by (simp add: apply_update_def)

lemma apply_bulk_user [simp]: "s_user_id (apply_bulk upd s) = s_user_id s"
  by (simp add: apply_bulk_def)

lemma edit_rows_own:
  assumes "\<And>s. s_user_id (f s) = s_user_id s"
  shows "filter (\<lambda>s. s_user_id s = u) (edit_rows u i f xs) =
         edit_rows u i f (filter (\<lambda>s. s_user_id s = u) xs)"
  unfolding edit_rows_def by (rule filter_map_keep) (simp add: assms)

lemma edit_rows_others:
  assumes "\<And>s. s_user_id (f s) = s_user_id s"
  shows "filter (\<lambda>s. s_user_id s \<noteq> u) (edit_rows u i f xs) = filter (\<lambda>s. s_user_id s \<noteq> u) xs"
  unfolding edit_rows_def by (rule filter_map_other) (simp_all add: assms)

lemma fst_case_list:
  "fst (case xs of [] \<Rightarrow> (a, d) | r # rs \<Rightarrow> (f r, d)) = (case xs of [] \<Rightarrow> a | r # rs \<Rightarrow> f r)"
  by (cases xs) simp_all

lemma snd_case_list:
  "snd (case xs of [] \<Rightarrow> (a, d) | r # rs \<Rightarrow> (f r, d)) = d"
  by (cases xs) simp_all

lemma put_staged_db:
  "snd (put_staged u i upd d) =
     (if no_fields upd then d
      else d\<lparr>staged_transactions := edit_rows u i (apply_update upd) (staged_transactions d)\<rparr>)"
  unfolding put_staged_def Let_def edit_rows_def
  by (simp only: snd_case_list if_distrib [of snd] snd_conv)

lemma put_staged_response:
  "fst (put_staged u i upd d) =
     (if no_fields upd then Bad_request
      else case filter (\<lambda>s. s_id s = i) (edit_rows u i (apply_update upd) (own_staged u d)) of
             [] \<Rightarrow> Not_found | r # rs \<Rightarrow> Updated_row r)"
proof -
  have "filter (\<lambda>s. s_id s = i \<and> s_user_id s = u)
          (edit_rows u i (apply_update upd) (staged_transactions d))
      = filter (\<lambda>s. s_id s = i) (filter (\<lambda>s. s_user_id s = u)
          (edit_rows u i (apply_update upd) (staged_transactions d)))"
    by (simp add: conj_commute)
  also have "\<dots> = filter (\<lambda>s. s_id s = i) (edit_rows u i (apply_update upd) (own_staged u d))"
    unfolding own_staged_def by (subst edit_rows_own) simp_all
  finally have e: "filter (\<lambda>s. s_id s = i \<and> s_user_id s = u)
      (map (\<lambda>s. if s_id s = i \<and> s_user_id s = u then apply_update upd s else s)
         (staged_transactions d))
      = filter (\<lambda>s. s_id s = i) (edit_rows u i (apply_update upd) (own_staged u d))"
    unfolding edit_rows_def .
  show ?thesis
    unfolding put_staged_def Let_def
    by (simp add: fst_case_list e)
qed

lemma put_staged_isolated:
  assumes "same_for u d1 d2"
  shows "fst (put_staged u i upd d1) = fst (put_staged u i upd d2)"
    and "same_for u (snd (put_staged u i upd d1)) (snd (put_staged u i upd d2))"
    and "others_untouched u d (snd (put_staged u i upd d))"
proof -
  show "fst (put_staged u i upd d1) = fst (put_staged u i upd d2)"
    using assms by (simp add: put_staged_response same_for_def)
  show "same_for u (snd (put_staged u i upd d1)) (snd (put_staged u i upd d2))"
    using assms
    by (simp add: put_staged_db same_for_def own_staged_def own_rules_def edit_rows_own)
  show "others_untouched u d (snd (put_staged u i upd d))"
    by (simp add: put_staged_db others_untouched_def edit_rows_others)
qed

lemma bulk_step_eq:
  "bulk_step u upd st i =
     (if bulk_fields upd
      then ((fst st)\<lparr>staged_transactions := edit_rows u i (apply_bulk upd) (staged_transactions (fst st))\<rparr>,
            snd st + 1)
      else st)"
  by (simp add: bulk_step_def edit_rows_def)

lemma bulk_fold_isolated:
  assumes "same_for u (fst st1) (fst st2)" "snd st1 = snd st2"
  shows "same_for u (fst (foldl (bulk_step u upd) st1 ids)) (fst (foldl (bulk_step u upd) st2 ids)) \<and>
         snd (foldl (bulk_step u upd) st1 ids) = snd (foldl (bulk_step u upd) st2 ids)"
  using assms
proof (induction ids arbitrary: st1 st2)
  case Nil
  then show ?case by simp
next
  case (Cons i ids)
  have "same_for u (fst (bulk_step u upd st1 i)) (fst (bulk_step u upd st2 i))"
    using Cons.prems
    by (simp add: bulk_step_eq same_for_def own_staged_def own_rules_def edit_rows_own)
  moreover have "snd (bulk_step u upd st1 i) = snd (bulk_step u upd st2 i)"
    using Cons.prems by (simp add: bulk_step_eq)
  ultimately show ?case
    using Cons.IH by simp
qed

lemma bulk_fold_others:
  "others_untouched u (fst st) (fst (foldl (bulk_step u upd) st ids))"
proof (induction ids arbitrary: st)
  case Nil
  then show ?case by (simp add: others_untouched_def)
next
  case (Cons i ids)
  have "others_untouched u (fst st) (fst (bulk_step u upd st i))"
    by (simp add: bulk_step_eq others_untouched_def edit_rows_others)
  then show ?case
    using Cons.IH [of "bulk_step u upd st i"] by (simp add: others_untouched_def)
qed

lemma put_staged_bulk_isolated:
  assumes "same_for u d1 d2"
  shows "fst (put_staged_bulk u ids upd d1) = fst (put_staged_bulk u ids upd d2)"
    and "same_for u (snd (put_staged_bulk u ids upd d1)) (snd (put_staged_bulk u ids upd d2))"
    and "others_untouched u d (snd (put_staged_bulk u ids upd d))"
proof -
  have f: "same_for u (fst (foldl (bulk_step u upd) (d1, 0) ids)) (fst (foldl (bulk_step u upd) (d2, 0) ids)) \<and>
         snd (foldl (bulk_step u upd) (d1, 0) ids) = snd (foldl (bulk_step u upd) (d2, 0) ids)"
    by (rule bulk_fold_isolated) (use assms in simp_all)
  show "fst (put_staged_bulk u ids upd d1) = fst (put_staged_bulk u ids upd d2)"
    using f by (simp add: put_staged_bulk_def Let_def)
  show "same_for u (snd (put_staged_bulk u ids upd d1)) (snd (put_staged_bulk u ids upd d2))"
    using f assms by (simp add: put_staged_bulk_def Let_def)
  show "others_untouched u d (snd (put_staged_bulk u ids upd d))"
    using bulk_fold_others [of u "(d, 0)" upd ids]
    by (simp add: put_staged_bulk_def Let_def others_untouched_def)
qed

subsection \<open>Clearing\<close>

lemma delete_staged_isolated:
  assumes "same_for u d1 d2"
  shows "fst (delete_staged u b d1) = fst (delete_staged u b d2)"
    and "same_for u (snd (delete_staged u b d1)) (snd (delete_staged u b d2))"
    and "others_untouched u d (snd (delete_staged u b d))"
proof -
  show "fst (delete_staged u b d1) = fst (delete_staged u b d2)"
    by (simp add: delete_staged_def)
  have "own_staged u (snd (delete_staged u b d)) =
      filter (\<lambda>s. \<not> (s_user_id s = u \<and> (truthy b \<longrightarrow> Some (s_batch_id s) = b))) (own_staged u d)" for d
    unfolding own_staged_def delete_staged_def
    by (simp del: filter_filter) (rule filter_commute)
  then show "same_for u (snd (delete_staged u b d1)) (snd (delete_staged u b d2))"
    using assms by (simp add: same_for_def) (simp add: delete_staged_def own_rules_def)
  show "others_untouched u d (snd (delete_staged u b d))"
    unfolding delete_staged_def others_untouched_def
    by (simp del: filter_filter) (rule filter_filter_own, simp)
qed

subsection \<open>Confirmation\<close>

lemma upsert_rule_own:
  "upsert_rule (filter (\<lambda>r. r_user_id r = u) rules) u p c dr cr =
     (case upsert_rule rules u p c dr cr of
        Inl e \<Rightarrow> Inl e | Inr rules' \<Rightarrow> Inr (filter (\<lambda>r. r_user_id r = u) rules'))"
proof -
  let ?g = "\<lambda>r. if r_user_id r = u \<and> r_pattern r = p
                 then r\<lparr>r_category := c, r_debit_account_id := dr,
                        r_credit_account_id := cr, r_hit_count := r_hit_count r + 1\<rparr>
                 else r"
  have ex: "(\<exists>r \<in> set (filter (\<lambda>r. r_user_id r = u) rules). r_user_id r = u \<and> r_pattern r = p)
      \<longleftrightarrow> (\<exists>r \<in> set rules. r_user_id r = u \<and> r_pattern r = p)"
    by auto
  have m: "filter (\<lambda>r. r_user_id r = u) (map ?g rules) = map ?g (filter (\<lambda>r. r_user_id r = u) rules)"
    by (rule filter_map_keep) simp
  show ?thesis
  proof (cases "500 < length p")
    case True
    then show ?thesis by (simp add: upsert_rule_def)
  next
    case short: False
    show ?thesis
    proof (cases "\<exists>r \<in> set rules. r_user_id r = u \<and> r_pattern r = p")
      case True
      then have "upsert_rule rules u p c dr cr = Inr (map ?g rules)"
        "upsert_rule (filter (\<lambda>r. r_user_id r = u) rules) u p c dr cr =
           Inr (map ?g (filter (\<lambda>r. r_user_id r = u) rules))"
        using short ex unfolding upsert_rule_def by simp_all
      then show ?thesis by (simp only: m sum.case)
    next
      case False
      then have "upsert_rule rules u p c dr cr =
           Inr (rules @ [\<lparr>r_user_id = u, r_pattern = p, r_category = c,
             r_debit_account_id = dr, r_credit_account_id = cr, r_hit_count = 1\<rparr>])"
        "upsert_rule (filter (\<lambda>r. r_user_id r = u) rules) u p c dr cr =
           Inr (filter (\<lambda>r. r_user_id r = u) rules @ [\<lparr>r_user_id = u, r_pattern = p,
             r_category = c, r_debit_account_id = dr, r_credit_account_id = cr, r_hit_count = 1\<rparr>])"
        using short ex unfolding upsert_rule_def by simp_all
      then show ?thesis by simp
    qed
  qed
qed

lemma upsert_rule_others:
  assumes "upsert_rule rules u p c dr cr = Inr rules'"
  shows "filter (\<lambda>r. r_user_id r \<noteq> u) rules' = filter (\<lambda>r. r_user_id r \<noteq> u) rules"
  using assms
proof (cases rule: upsert_rule_cases)
  case upd
  show ?thesis
    unfolding upd(2) by (rule filter_map_other) simp_all
next
  case ins
  show ?thesis
    unfolding ins(2) by simp
qed

lemma learn_rule_own:
  assumes "own_rules u d1 = own_rules u d2"
  shows "own_rules u (learn_rule d1 u tx) = own_rules u (learn_rule d2 u tx)"
proof -
  define F where "F = (\<lambda>own.
      case s_description tx of None \<Rightarrow> own | Some description \<Rightarrow>
        if description \<noteq> [] \<and> s_suggested_category tx \<noteq> Some (js ''Uncategorized'') \<and>
           3 \<le> length (pattern_of description) then
          (case upsert_rule own u (pattern_of description) (s_suggested_category tx)
                  (s_suggested_debit_account_id tx) (s_suggested_credit_account_id tx) of
             Inl e \<Rightarrow> own | Inr rules \<Rightarrow> rules)
        else own)"
  have "own_rules u (learn_rule d u tx) = F (own_rules u d)" for d
    unfolding F_def learn_rule_def own_rules_def upsert_rule_own Let_def
    by (simp split: option.splits sum.splits)
  then show ?thesis by (simp only: assms)
qed

lemma learn_rule_cases:
  "learn_rule d u tx = d \<or>
   (\<exists>p c dr cr rules'. upsert_rule (category_rules d) u p c dr cr = Inr rules' \<and>
      learn_rule d u tx = d\<lparr>category_rules := rules'\<rparr>)"
proof (cases "s_description tx")
  case None
  then show ?thesis by (simp add: learn_rule_def)
next
  case (Some descr)
  show ?thesis
  proof (cases "upsert_rule (category_rules d) u (pattern_of descr) (s_suggested_category tx)
                  (s_suggested_debit_account_id tx) (s_suggested_credit_account_id tx)")
    case (Inl e)
    then show ?thesis using Some by (simp add: learn_rule_def Let_def)
  next
    case (Inr rules')
    then have "learn_rule d u tx = d \<or> learn_rule d u tx = d\<lparr>category_rules := rules'\<rparr>"
      using Some by (simp add: learn_rule_def Let_def)
    then show ?thesis using Inr by blast
  qed
qed

lemma learn_rule_others:
  "filter (\<lambda>r. r_user_id r \<noteq> u) (category_rules (learn_rule d u tx)) =
   filter (\<lambda>r. r_user_id r \<noteq> u) (category_rules d)"
  using learn_rule_cases [of d u tx] upsert_rule_others [of "category_rules d" u]
  by (elim disjE exE conjE) simp_all

lemma dupCheck_cong:
  "transactions d1 = transactions d2 \<Longrightarrow> dupCheck d1 u tx = dupCheck d2 u tx"
  by (simp add: dupCheck_def)

lemma insert_transaction_rel:
  assumes "same_for u d1 d2"
  shows "(\<exists>e. insert_transaction d1 u tx = Inl e \<and> insert_transaction d2 u tx = Inl e) \<or>
         (\<exists>d1' d2'. insert_transaction d1 u tx = Inr d1' \<and> insert_transaction d2 u tx = Inr d2' \<and>
            same_for u d1' d2')"
proof (cases "insert_transaction d1 u tx")
  case (Inl e)
  then have "insert_transaction d2 u tx = Inl e"
    using assms insert_fail_cong [of d2 d1 u tx e] by (simp add: same_for_def)
  then show ?thesis using Inl by simp
next
  case (Inr d1')
  then have d1': "d1' = d1\<lparr>transactions := transactions d1' \<rparr>"
    using insert_transaction_frame [OF Inr] by simp
  have "\<exists>d2'. insert_transaction d2 u tx = Inr d2' \<and> transactions d2' = transactions d1'"
    using Inr assms unfolding insert_transaction_def same_for_def
    by (auto split: option.splits if_splits)
  then obtain d2' where d2': "insert_transaction d2 u tx = Inr d2'"
      "transactions d2' = transactions d1'"
    by blast
  have "same_for u d1' d2'"
    using assms insert_transaction_frame [OF Inr] insert_transaction_frame [OF d2'(1)] d2'(2)
    by (simp add: same_for_def own_staged_def own_rules_def)
  then show ?thesis using Inr d2'(1) by simp
qed

lemma learn_rule_rel:
  assumes "same_for u d1 d2"
  shows "same_for u (learn_rule d1 u tx) (learn_rule d2 u tx)"
  using assms learn_rule_own [of u d1 d2 tx]
  by (simp add: same_for_def own_staged_def learn_rule_frame)

lemma confirm_row_Inl:
  assumes "insert_transaction (cs_db st) u tx = Inl e"
  shows "confirm_row u st tx =
     (if s_suggested_debit_account_id tx = None \<or> s_suggested_credit_account_id tx = None \<or>
         dupCheck (cs_db st) u tx \<noteq> []
      then st\<lparr>skipped := skipped st + 1\<rparr>
      else st\<lparr>errors := errors st @ [(s_id tx, e)]\<rparr>)"
  using assms by (simp add: confirm_row_def)

lemma confirm_row_Inr:
  assumes "insert_transaction (cs_db st) u tx = Inr d'"
  shows "confirm_row u st tx =
     (if s_suggested_debit_account_id tx = None \<or> s_suggested_credit_account_id tx = None \<or>
         dupCheck (cs_db st) u tx \<noteq> []
      then st\<lparr>skipped := skipped st + 1\<rparr>
      else st\<lparr>cs_db := learn_rule d' u tx, imported := imported st + 1\<rparr>)"
  using assms by (simp add: confirm_row_def)

lemma confirm_row_rel:
  assumes "st_rel u st1 st2"
  shows "st_rel u (confirm_row u st1 tx) (confirm_row u st2 tx)"
proof -
  have s: "same_for u (cs_db st1) (cs_db st2)"
    using assms by (simp add: st_rel_def)
  then have dup: "dupCheck (cs_db st1) u tx = dupCheck (cs_db st2) u tx"
    by (intro dupCheck_cong) (simp add: same_for_def)
  have skip: "st_rel u (st1\<lparr>skipped := skipped st1 + 1\<rparr>) (st2\<lparr>skipped := skipped st2 + 1\<rparr>)"
    using assms by (simp add: st_rel_def)
  let ?skip = "s_suggested_debit_account_id tx = None \<or> s_suggested_credit_account_id tx = None \<or>
      dupCheck (cs_db st2) u tx \<noteq> []"
  from insert_transaction_rel [OF s, of tx] show ?thesis
  proof (elim disjE exE conjE)
    fix e
    assume i: "insert_transaction (cs_db st1) u tx = Inl e"
      "insert_transaction (cs_db st2) u tx = Inl e"
    have err: "st_rel u (st1\<lparr>errors := errors st1 @ [(s_id tx, e)]\<rparr>)
        (st2\<lparr>errors := errors st2 @ [(s_id tx, e)]\<rparr>)"
      using assms by (simp add: st_rel_def)
    show ?thesis
    proof (cases ?skip)
      case True
      then have "confirm_row u st1 tx = st1\<lparr>skipped := skipped st1 + 1\<rparr>"
        "confirm_row u st2 tx = st2\<lparr>skipped := skipped st2 + 1\<rparr>"
        by (simp_all add: confirm_row_Inl [OF i(1)] confirm_row_Inl [OF i(2)] dup)
      then show ?thesis using skip by simp
    next
      case False
      then have "confirm_row u st1 tx = st1\<lparr>errors := errors st1 @ [(s_id tx, e)]\<rparr>"
        "confirm_row u st2 tx = st2\<lparr>errors := errors st2 @ [(s_id tx, e)]\<rparr>"
        by (auto simp: confirm_row_Inl [OF i(1)] confirm_row_Inl [OF i(2)] dup)
      then show ?thesis using err by simp
    qed
  next
    fix d1' d2'
    assume i: "insert_transaction (cs_db st1) u tx = Inr d1'"
      "insert_transaction (cs_db st2) u tx = Inr d2'" and r: "same_for u d1' d2'"
    have imp: "st_rel u (st1\<lparr>cs_db := learn_rule d1' u tx, imported := imported st1 + 1\<rparr>)
        (st2\<lparr>cs_db := learn_rule d2' u tx, imported := imported st2 + 1\<rparr>)"
      using assms learn_rule_rel [OF r, of tx] by (simp add: st_rel_def)
    show ?thesis
    proof (cases ?skip)
      case True
      then have "confirm_row u st1 tx = st1\<lparr>skipped := skipped st1 + 1\<rparr>"
        "confirm_row u st2 tx = st2\<lparr>skipped := skipped st2 + 1\<rparr>"
        by (simp_all add: confirm_row_Inr [OF i(1)] confirm_row_Inr [OF i(2)] dup)
      then show ?thesis using skip by simp
    next
      case False
      then have "confirm_row u st1 tx =
          st1\<lparr>cs_db := learn_rule d1' u tx, imported := imported st1 + 1\<rparr>"
        "confirm_row u st2 tx = st2\<lparr>cs_db := learn_rule d2' u tx, imported := imported st2 + 1\<rparr>"
        by (auto simp: confirm_row_Inr [OF i(1)] confirm_row_Inr [OF i(2)] dup)
      then show ?thesis using imp by simp
    qed
  qed
qed

lemma confirm_rows_rel:
  assumes "st_rel u st1 st2"
  shows "st_rel u (confirm_rows u st1 rows) (confirm_rows u st2 rows)"
  using assms unfolding confirm_rows_def
proof (induction rows arbitrary: st1 st2)
  case Nil
  then show ?case by simp
next
  case (Cons tx rows)
  from Cons.IH [OF confirm_row_rel [OF Cons.prems]] show ?case by simp
qed

lemma confirm_row_others:
  "filter (\<lambda>r. r_user_id r \<noteq> u) (category_rules (cs_db (confirm_row u st tx))) =
   filter (\<lambda>r. r_user_id r \<noteq> u) (category_rules (cs_db st))"
proof (cases "insert_transaction (cs_db st) u tx")
  case (Inl e)
  then show ?thesis by (simp add: confirm_row_def)
next
  case (Inr d')
  then show ?thesis
    using insert_transaction_frame(2) [OF Inr]
    by (simp add: confirm_row_def learn_rule_others)
qed

lemma confirm_rows_others:
  "filter (\<lambda>r. r_user_id r \<noteq> u) (category_rules (cs_db (confirm_rows u st rows))) =
   filter (\<lambda>r. r_user_id r \<noteq> u) (category_rules (cs_db st))"
  unfolding confirm_rows_def
  by (induction rows arbitrary: st) (simp_all add: confirm_row_others)

lemma select_staged_own:
  "select_staged d u b =
     filter (\<lambda>s. sql_ne (s_status s) (Some (js ''rejected'')) \<and>
                 (truthy b \<longrightarrow> Some (s_batch_id s) = b)) (own_staged u d)"
  unfolding select_staged_def own_staged_def by (rule filter_own)

lemma delete_confirmed_own:
  "own_staged u (delete_confirmed d u b) =
     filter (\<lambda>s. \<not> (if truthy b then s_user_id s = u \<and> Some (s_batch_id s) = b
                     else s_user_id s = u \<and> sql_ne (s_status s) (Some (js ''rejected''))))
       (own_staged u d)"
  unfolding own_staged_def delete_confirmed_def
  by (simp del: filter_filter) (rule filter_commute)

lemma delete_confirmed_others:
  "filter (\<lambda>s. s_user_id s \<noteq> u) (staged_transactions (delete_confirmed d u b)) =
   filter (\<lambda>s. s_user_id s \<noteq> u) (staged_transactions d)"
  unfolding delete_confirmed_def
  by (simp del: filter_filter) (rule filter_filter_own, auto split: if_splits)

lemma delete_confirmed_rel:
  assumes "same_for u d1 d2"
  shows "same_for u (delete_confirmed d1 u b) (delete_confirmed d2 u b)"
  using assms unfolding same_for_def delete_confirmed_own
  by (simp add: delete_confirmed_def own_rules_def)

lemma confirm_isolated:
  assumes "same_for u d1 d2"
  shows "fst (confirm u b d1) = fst (confirm u b d2)"
    and "same_for u (snd (confirm u b d1)) (snd (confirm u b d2))"
proof -
  have sel: "select_staged d1 u b = select_staged d2 u b"
    using assms by (simp add: select_staged_own same_for_def)
  let ?st1 = "confirm_rows u \<lparr>cs_db = d1, imported = 0, skipped = 0, errors = []\<rparr> (select_staged d1 u b)"
  let ?st2 = "confirm_rows u \<lparr>cs_db = d2, imported = 0, skipped = 0, errors = []\<rparr> (select_staged d1 u b)"
  have "st_rel u \<lparr>cs_db = d1, imported = 0, skipped = 0, errors = []\<rparr>
      \<lparr>cs_db = d2, imported = 0, skipped = 0, errors = []\<rparr>"
    using assms by (simp add: st_rel_def)
  then have r: "st_rel u ?st1 ?st2"
    by (rule confirm_rows_rel)
  show "fst (confirm u b d1) = fst (confirm u b d2)"
    using r by (simp add: confirm_def Let_def sel [symmetric] st_rel_def)
  show "same_for u (snd (confirm u b d1)) (snd (confirm u b d2))"
    using r assms delete_confirmed_rel [of u "cs_db ?st1" "cs_db ?st2" b]
    by (simp add: confirm_def Let_def sel [symmetric] st_rel_def)
qed

lemma confirm_others:
  "others_untouched u d (snd (confirm u b d))"
proof -
  let ?st = "confirm_rows u \<lparr>cs_db = d, imported = 0, skipped = 0, errors = []\<rparr> (select_staged d u b)"
  have "others_untouched u d (delete_confirmed (cs_db ?st) u b)"
    unfolding others_untouched_def delete_confirmed_others
    using confirm_rows_others [of u "\<lparr>cs_db = d, imported = 0, skipped = 0, errors = []\<rparr>"]
    by (simp add: confirm_rows_frame) (simp add: delete_confirmed_def)
  then show ?thesis
    by (simp add: confirm_def Let_def others_untouched_def)
qed

section \<open>Classification\<close>












subsection \<open>No stored rule is 'Uncategorized'\<close>

lemma upsert_rule_no_uncategorized:
  assumes "upsert_rule rules u p c dr cr = Inr rules'" "c \<noteq> Some (js ''Uncategorized'')"
    "no_uncategorized rules"
  shows "no_uncategorized rules'"
  using assms(1)
proof (cases rule: upsert_rule_cases)
  case upd
  show ?thesis unfolding upd(2) using assms(2,3) by (auto simp: no_uncategorized_def)
next
  case ins
  show ?thesis unfolding ins(2) using assms(2,3) by (simp add: no_uncategorized_def)
qed

lemma learn_rule_no_uncategorized:
  assumes "no_uncategorized (category_rules d)"
  shows "no_uncategorized (category_rules (learn_rule d u tx))"
proof (cases "s_description tx")
  case None
  then show ?thesis using assms by (simp add: learn_rule_def)
next
  case (Some descr)
  show ?thesis
  proof (cases "upsert_rule (category_rules d) u (pattern_of descr) (s_suggested_category tx)
                  (s_suggested_debit_account_id tx) (s_suggested_credit_account_id tx)")
    case (Inl e)
    then show ?thesis using Some assms by (simp add: learn_rule_def Let_def)
  next
    case (Inr rules')
    show ?thesis
    proof (cases "s_suggested_category tx = Some (js ''Uncategorized'')")
      case True
      then show ?thesis using Some assms by (simp add: learn_rule_def Let_def)
    next
      case False
      from upsert_rule_no_uncategorized [OF Inr False assms]
      show ?thesis using Some Inr assms by (simp add: learn_rule_def Let_def)
    qed
  qed
qed

lemma confirm_row_no_uncategorized:
  assumes "no_uncategorized (category_rules (cs_db st))"
  shows "no_uncategorized (category_rules (cs_db (confirm_row u st tx)))"
proof (cases "insert_transaction (cs_db st) u tx")
  case (Inl e)
  then show ?thesis using assms by (simp add: confirm_row_def)
next
  case (Inr d')
  then have "no_uncategorized (category_rules d')"
    using assms insert_transaction_frame(2) [OF Inr] by simp
  from learn_rule_no_uncategorized [OF this]
  show ?thesis using assms Inr by (simp add: confirm_row_def)
qed

lemma confirm_no_uncategorized:
  assumes "no_uncategorized (category_rules d)"
  shows "no_uncategorized (category_rules (snd (confirm u b d)))"
proof -
  have "no_uncategorized (category_rules (cs_db st)) \<Longrightarrow>
      no_uncategorized (category_rules (cs_db (confirm_rows u st rows)))" for st rows
    unfolding confirm_rows_def
  proof (induction rows arbitrary: st)
    case Nil
    then show ?case by simp
  next
    case (Cons tx rows)
    from Cons.IH [OF confirm_row_no_uncategorized [OF Cons.prems]] show ?case by simp
  qed
  from this [of "\<lparr>cs_db = d, imported = 0, skipped = 0, errors = []\<rparr>" "select_staged d u b"]
  show ?thesis
    using assms by (simp add: confirm_def Let_def delete_confirmed_def)
qed

lemma handle_no_uncategorized:
  assumes "no_uncategorized (category_rules d)"
  shows "no_uncategorized (category_rules (snd (handle u rq d)))"
proof (cases rq)
  case (Put_staged i upd)
  then show ?thesis using assms by (simp add: put_staged_db)
next
  case (Put_staged_bulk ids upd)
  have "category_rules (fst (foldl (bulk_step u upd) st ids)) = category_rules (fst st)" for st
    by (induction ids arbitrary: st) (simp_all add: bulk_step_eq)
  from this [of "(d, 0)"] show ?thesis
    using assms Put_staged_bulk by (simp add: put_staged_bulk_def Let_def)
next
  case (Post_confirm b)
  then show ?thesis using confirm_no_uncategorized [OF assms] by simp
qed (use assms in \<open>simp_all add: get_staged_def delete_staged_def get_rules_def\<close>)

subsection \<open>Evaluation on the example corpus\<close>







section \<open>The amount parser\<close>








lemma digit_not_space: "is_digit c \<Longrightarrow> \<not> is_space c"
  by (auto simp: is_digit_def is_space_def)











section \<open>The date parser\<close>

lemma split3_exact:
  assumes "\<forall>x \<in> set a. \<not> sep x" "\<forall>x \<in> set b. \<not> sep x" "sep s1" "sep s2"
  shows "split3 sep (a @ [s1] @ b @ [s2] @ c) = Some (a, b, c)"
proof -
  have 1: "takeWhile (\<lambda>c. \<not> sep c) (a @ s1 # rest) = a"
    "dropWhile (\<lambda>c. \<not> sep c) (a @ s1 # rest) = s1 # rest" for rest
    using assms(1,3) by (induction a) auto
  have 2: "takeWhile (\<lambda>c. \<not> sep c) (b @ s2 # rest) = b"
    "dropWhile (\<lambda>c. \<not> sep c) (b @ s2 # rest) = s2 # rest" for rest
    using assms(2,4) by (induction b) auto
  show ?thesis
    unfolding split3_def Let_def by (simp add: 1 2 del: takeWhile_append dropWhile_append)
qed

lemma split3_parts:
  assumes "split3 sep s = Some (a, b, c)"
  shows "\<exists>s1 s2. s = a @ [s1] @ b @ [s2] @ c \<and> sep s1 \<and> sep s2"
proof -
  let ?n = "\<lambda>c. \<not> sep c"
  from assms obtain c1 s2 where r1: "dropWhile ?n s = c1 # s2"
    unfolding split3_def Let_def by (auto split: list.splits)
  with assms obtain c2 where r2: "dropWhile ?n s2 = c2 # c" and
    ab: "a = takeWhile ?n s" "b = takeWhile ?n s2"
    unfolding split3_def Let_def by (auto split: list.splits)
  have "s = takeWhile ?n s @ dropWhile ?n s" "s2 = takeWhile ?n s2 @ dropWhile ?n s2"
    by simp_all
  then have "s = a @ [c1] @ b @ [c2] @ c"
    unfolding r1 r2 ab [symmetric] by (metis append_Cons append_Nil)
  moreover have "sep c1"
    using hd_dropWhile [of ?n s] r1 by auto
  moreover have "sep c2"
    using hd_dropWhile [of ?n s2] r2 by auto
  ultimately show ?thesis by blast
qed

lemma digit_props:
  assumes "is_digit x"
  shows "\<not> is_space x" "\<not> is_date_sep x" "\<not> is_mon_sep x" "\<not> is_alpha x"
  using assms by (auto simp: is_digit_def is_space_def is_date_sep_def is_mon_sep_def is_alpha_def)

lemma alpha_props:
  assumes "is_alpha x"
  shows "\<not> is_space x" "\<not> is_date_sep x" "\<not> is_mon_sep x" "\<not> is_digit x"
  using assms by (auto simp: is_digit_def is_space_def is_date_sep_def is_mon_sep_def is_alpha_def)

lemma trim_id:
  assumes "s \<noteq> []" "\<not> is_space (hd s)" "\<not> is_space (last s)"
  shows "trim s = s"
proof -
  have "dropWhile is_space s = s"
    using assms(1,2) by (cases s) auto
  moreover have "dropWhile is_space (rev s) = rev s"
    using assms(1,3) by (cases "rev s") (auto simp: last_rev [symmetric] simp del: last_rev)
  ultimately show ?thesis by (simp add: trim_def)
qed

lemma parseDate_numeric_two_digit_year:
  assumes "digits_1_2 a" "digits_1_2 b" "all_digits c" "length c = 2"
    "is_date_sep s1" "is_date_sep s2"
  shows "parseDate native (a @ [s1] @ b @ [s2] @ c) =
     Some ((if 50 < digits_val c then js ''19'' else js ''20'') @ c @ js ''-'' @
           padStart2 b @ js ''-'' @ padStart2 a)"
proof -
  let ?s = "a @ [s1] @ b @ [s2] @ c"
  have ne: "a \<noteq> []" "c \<noteq> []"
    using assms(1,4) by (auto simp: digits_1_2_def)
  then have a: "a \<noteq> []" "is_digit (hd a)" and c: "c \<noteq> []" "is_digit (last c)"
    using assms(1,3) hd_in_set [of a] last_in_set [of c]
    by (auto simp: digits_1_2_def all_digits_def)
  have "hd ?s = hd a" "last ?s = last c"
    using a(1) c(1) by simp_all
  then have t: "trim ?s = ?s"
    using trim_id [of ?s] a c digit_props(1) by simp
  have sp: "split3 is_date_sep ?s = Some (a, b, c)"
    by (rule split3_exact) (use assms digit_props(2) in \<open>auto simp: digits_1_2_def all_digits_def\<close>)
  have n: "numeric_date ?s =
      Some ((if 50 < digits_val c then js ''19'' @ c else js ''20'' @ c) @
            js ''-'' @ padStart2 b @ js ''-'' @ padStart2 a)"
    unfolding numeric_date_def sp using assms(1-4) by simp
  show ?thesis
    unfolding parseDate_def t n using a(1) by simp
qed

lemma numeric_date_chars:
  assumes "numeric_date s = Some d"
  shows "\<forall>x \<in> set s. is_digit x \<or> is_date_sep x"
proof -
  from assms obtain a b c where sp: "split3 is_date_sep s = Some (a, b, c)"
    and ad: "all_digits a" "all_digits b" "all_digits c"
    unfolding numeric_date_def by (auto split: option.splits if_splits simp: digits_1_2_def)
  from split3_parts [OF sp] obtain s1 s2 where s: "s = a @ [s1] @ b @ [s2] @ c"
    and "is_date_sep s1" "is_date_sep s2"
    by blast
  then show ?thesis
    using ad by (auto simp: all_digits_def)
qed

lemma parseDate_month_two_digit_year:
  assumes "digits_1_2 a" "length b = 3" "\<forall>x \<in> set b. is_alpha x"
    "map_of months (toLowerCase b) = Some mm" "all_digits c" "length c = 2"
    "is_mon_sep s1" "is_mon_sep s2"
  shows "parseDate native (a @ [s1] @ b @ [s2] @ c) =
     Some (js ''20'' @ c @ js ''-'' @ mm @ js ''-'' @ padStart2 a)"
proof -
  let ?s = "a @ [s1] @ b @ [s2] @ c"
  have ne: "a \<noteq> []" "c \<noteq> []"
    using assms(1,6) by (auto simp: digits_1_2_def)
  then have a: "a \<noteq> []" "is_digit (hd a)" and c: "c \<noteq> []" "is_digit (last c)"
    using assms(1,5) hd_in_set [of a] last_in_set [of c]
    by (auto simp: digits_1_2_def all_digits_def)
  have "hd ?s = hd a" "last ?s = last c"
    using a(1) c(1) by simp_all
  then have t: "trim ?s = ?s"
    using trim_id [of ?s] a c digit_props(1) by simp
  obtain x where x: "x \<in> set b" "is_alpha x"
    using assms(2,3) by (cases b) auto
  have "numeric_date ?s = None"
  proof (cases "numeric_date ?s")
    case (Some d)
    from numeric_date_chars [OF Some] x(1) have "is_digit x \<or> is_date_sep x"
      by simp
    then show ?thesis using alpha_props(2,4) [OF x(2)] by simp
  qed simp
  moreover have sp: "split3 is_mon_sep ?s = Some (a, b, c)"
    by (rule split3_exact)
       (use assms digit_props(3) alpha_props(3) in \<open>auto simp: digits_1_2_def all_digits_def\<close>)
  have "month_date ?s = Some (js ''20'' @ c @ js ''-'' @ mm @ js ''-'' @ padStart2 a)"
    unfolding month_date_def sp using assms(1-6) by simp
  ultimately show ?thesis
    unfolding parseDate_def t using a(1) by simp
qed

section \<open>The page-layout reconstructor: header row, markers, extraction loops\<close>

subsection \<open>Header row\<close>

lemma headerRowIdx_Some:
  assumes "headerRowIdx rows = Some i"
  shows "i < length rows \<and> 3 \<le> matchCount (rows ! i) \<and> (\<forall>j < i. matchCount (rows ! j) < 3)"
  using assms
proof (induction rows arbitrary: i)
  case Nil
  then show ?case by simp
next
  case (Cons row rows)
  show ?case
  proof (cases "3 \<le> matchCount row")
    case True
    then show ?thesis using Cons.prems by simp
  next
    case False
    then obtain k where k: "headerRowIdx rows = Some k" "i = Suc k"
      using Cons.prems by auto
    from Cons.IH [OF k(1)] False show ?thesis
      unfolding k(2) by (auto simp: less_Suc_eq_0_disj)
  qed
qed

lemma headerRowIdx_None:
  "headerRowIdx rows = None \<longleftrightarrow> (\<forall>row \<in> set rows. matchCount row < 3)"
  by (induction rows) auto

subsection \<open>Whole words\<close>






subsection \<open>The two extraction loops\<close>







subsection \<open>The example documents\<close>

lemmas pdf_defs = text_row_of_def item_def matchCount_def headerKeywords_def bankType_of_def
  parsePDF_def colMap_of_def map_header_item_def found_def build_tx_def collect_def map_item_def
  numericRegex_def amount_at_def closest_def squeeze_def continues_def first_text_def
  positive_def is_zero_def is_digit_or_comma_def dateRegex_def split3_def is_date_sep_def
  is_mon_sep_def digits_1_2_def all_digits_def padStart2_def digits_val_def numeric_date_def
  month_date_def months_def parseDate_def parseAmount_def parseFloat_def exponent_def
  scale10_def line_tx_def date_prefix_def date_prefix_numeric_def date_prefix_month_def
  lead_digits_1_2_def lead_year_def credit_marker_def credit_markers_def word_at_def
  is_word_def descMatch_def is_line_terminator_def amounts_case_def no_native_def
  spec_marker_def Let_def

lemma ev_counts_header: "map matchCount rows_header = [1, 2, 7, 0, 1]"
  by (simp add: rows_header_def pdf_defs str_defs)

lemma ev_counts_plain: "map matchCount rows_plain = [0, 2, 1, 0]"
  by (simp add: rows_plain_def pdf_defs str_defs)

lemma ev_header_idx: "headerRowIdx rows_header = Some 2"
  by (simp add: rows_header_def pdf_defs str_defs)







section \<open>Claims about the confirmation\<close>

text \<open>
  C1. A staged row with both accounts present is skipped when the ledger already holds a
  transaction of the same owner, date, amount and description, so that confirming the
  same rows a second time leaves the ledger as it was. The duplicate check compares the
  description with SQL \<open>=\<close>, which is never true on NULL: at the database \<open>d_null\<close>
  the staged row and the ledger row agree on the owner, the date and the amount and both
  have no description, and the confirmation imports the row and the ledger holds the
  transaction twice. (For rows that have a description the claim holds:
  \<open>confirm_row_duplicate\<close>, \<open>confirm_rows_idempotent\<close>.)
\<close>

theorem confirm_null_description_inserted_again:
  "confirm 1 (Some (js ''b1'')) d_null =
     (Confirmed 1 0 [],
      d_null\<lparr>staged_transactions := [],
        transactions :=
          [\<lparr>t_user_id = 1, t_date = 19723, t_amount = 15000, t_description = None,
            t_debit_account_id = 10, t_credit_account_id = 20, t_category = Some (js ''Food'')\<rparr>,
           \<lparr>t_user_id = 1, t_date = 19723, t_amount = 15000, t_description = None,
            t_debit_account_id = 10, t_credit_account_id = 20, t_category = Some (js ''Food'')\<rparr>]\<rparr>)"
  by (simp add: d_null_def eval_defs str_defs)



text \<open>
  C3. A rejected row never yields a ledger transaction and is still in the staging table
  after a confirmation, with a batch and without one. The rows that the loop processes
  exclude the rejected ones (\<open>select_staged_not_rejected\<close>), and a confirmation
  without a batch keeps them (\<open>confirm_keeps_rejected\<close>); a confirmation of a batch
  deletes every row of the batch, the rejected row included, although the statement is
  introduced as "Clear confirmed staged transactions".
\<close>

theorem confirm_batch_deletes_rejected:
  "s_status (staged_transactions d_rejected ! 1) = Some (js ''rejected'') \<and>
   staged_transactions (snd (confirm 1 (Some (js ''b1'')) d_rejected)) = [] \<and>
   staged_transactions (snd (confirm 1 None d_rejected)) = [staged_transactions d_rejected ! 1]"
  by (simp add: d_rejected_def eval_defs str_defs)

text \<open>
  C9. As the claim states it, every successful insert with a category other than
  'Uncategorized' upserts the corpus. The code upserts only when the description yields a
  pattern: the row of \<open>d_digits\<close> ("12345", category Food) is imported and the
  corpus stays empty.
\<close>

theorem rule_learning_counterexample:
  "fst (confirm 1 None d_digits) = Confirmed 1 0 [] \<and>
   map s_suggested_category (staged_transactions d_digits) = [Some (js ''Food'')] \<and>
   category_rules (snd (confirm 1 None d_digits)) = []"
  by (simp add: d_digits_def eval_defs str_defs)

text \<open>
  C9, amended. When the loop body imports a row (the insert into the ledger succeeded)
  and the row has a category other than 'Uncategorized', a description with at least one
  alphabetic token longer than two letters, and a pattern that fits the pattern column:
  the pattern is the lower-cased join, by single spaces, of the first four such tokens;
  afterwards the corpus holds under (owner, pattern) a rule with the row's category and
  accounts, whose hit count is 1 if the key was new and one more than before otherwise;
  every other key is as before. When the category is 'Uncategorized', or the description
  is missing or has no such token, or the pattern is longer than the column, the corpus is
  unchanged. Hit counts of at least 1 stay so, in the loop body and in the whole
  confirmation.
\<close>

theorem rule_learning:
  assumes "imported (confirm_row u st tx) = Suc (imported st)"
  shows
    "(\<forall>descr. s_suggested_category tx \<noteq> Some (js ''Uncategorized'') \<and>
        s_description tx = Some descr \<and> (\<exists>w \<in> set (letter_runs descr). 2 < length w) \<and>
        length (pattern_of descr) \<le> 500 \<longrightarrow>
        pattern_of descr =
          toLowerCase (join (js '' '') (take 4 (filter (\<lambda>w. 2 < length w) (letter_runs descr)))) \<and>
        lookup_rule (category_rules (cs_db (confirm_row u st tx))) u (pattern_of descr) =
          Some \<lparr>r_user_id = u, r_pattern = pattern_of descr,
                r_category = s_suggested_category tx,
                r_debit_account_id = s_suggested_debit_account_id tx,
                r_credit_account_id = s_suggested_credit_account_id tx,
                r_hit_count =
                  (case lookup_rule (category_rules (cs_db st)) u (pattern_of descr) of
                     None \<Rightarrow> 1 | Some r \<Rightarrow> r_hit_count r + 1)\<rparr> \<and>
        (\<forall>u' p'. u' \<noteq> u \<or> p' \<noteq> pattern_of descr \<longrightarrow>
           lookup_rule (category_rules (cs_db (confirm_row u st tx))) u' p' =
           lookup_rule (category_rules (cs_db st)) u' p')) \<and>
     (s_suggested_category tx = Some (js ''Uncategorized'') \<or> s_description tx = None \<or>
        (\<exists>descr. s_description tx = Some descr \<and>
           ((\<forall>w \<in> set (letter_runs descr). length w \<le> 2) \<or> 500 < length (pattern_of descr))) \<longrightarrow>
        category_rules (cs_db (confirm_row u st tx)) = category_rules (cs_db st)) \<and>
     ((\<forall>r \<in> set (category_rules (cs_db st)). 1 \<le> r_hit_count r) \<longrightarrow>
        (\<forall>r \<in> set (category_rules (cs_db (confirm_row u st tx))). 1 \<le> r_hit_count r)) \<and>
     ((\<forall>r \<in> set (category_rules d). 1 \<le> r_hit_count r) \<longrightarrow>
        (\<forall>r \<in> set (category_rules (snd (confirm u b d))). 1 \<le> r_hit_count r))"
proof -
  from confirm_row_imported [OF assms] obtain d1 where
    ins: "insert_transaction (cs_db st) u tx = Inr d1" and
    db: "cs_db (confirm_row u st tx) = learn_rule d1 u tx" by blast
  have rules: "category_rules d1 = category_rules (cs_db st)"
    using insert_transaction_frame(2) [OF ins] .
  have w: "\<And>descr. (\<exists>w \<in> set (letter_runs descr). 2 < length w) \<longleftrightarrow> words_of descr \<noteq> []"
    by (auto simp: words_of_letter_runs filter_empty_conv)
  have A: "pattern_of descr =
          toLowerCase (join (js '' '') (take 4 (filter (\<lambda>w. 2 < length w) (letter_runs descr)))) \<and>
        lookup_rule (category_rules (cs_db (confirm_row u st tx))) u (pattern_of descr) =
          Some \<lparr>r_user_id = u, r_pattern = pattern_of descr,
                r_category = s_suggested_category tx,
                r_debit_account_id = s_suggested_debit_account_id tx,
                r_credit_account_id = s_suggested_credit_account_id tx,
                r_hit_count =
                  (case lookup_rule (category_rules (cs_db st)) u (pattern_of descr) of
                     None \<Rightarrow> 1 | Some r \<Rightarrow> r_hit_count r + 1)\<rparr> \<and>
        (\<forall>u' p'. u' \<noteq> u \<or> p' \<noteq> pattern_of descr \<longrightarrow>
           lookup_rule (category_rules (cs_db (confirm_row u st tx))) u' p' =
           lookup_rule (category_rules (cs_db st)) u' p')"
    if h: "s_suggested_category tx \<noteq> Some (js ''Uncategorized'')"
        "s_description tx = Some descr" "\<exists>w \<in> set (letter_runs descr). 2 < length w"
        "length (pattern_of descr) \<le> 500" for descr
  proof -
    have ne: "words_of descr \<noteq> []"
      using h(3) w by simp
    have up: "upsert_rule (category_rules (cs_db st)) u (pattern_of descr)
        (s_suggested_category tx) (s_suggested_debit_account_id tx)
        (s_suggested_credit_account_id tx) = Inr (category_rules (cs_db (confirm_row u st tx)))"
      using learn_rule_upsert [OF h(1,2) ne h(4), of d1 u] by (simp add: db rules)
    show ?thesis
      using upsert_rule_lookup_same [OF up] upsert_rule_lookup_other [OF up]
      by (simp add: pattern_of_def words_of_letter_runs)
  qed
  have B: "category_rules (cs_db (confirm_row u st tx)) = category_rules (cs_db st)"
    if "s_suggested_category tx = Some (js ''Uncategorized'') \<or> s_description tx = None \<or>
        (\<exists>descr. s_description tx = Some descr \<and>
           ((\<forall>w \<in> set (letter_runs descr). length w \<le> 2) \<or> 500 < length (pattern_of descr)))"
  proof -
    have "s_suggested_category tx = Some (js ''Uncategorized'') \<or> s_description tx = None \<or>
       (\<exists>descr. s_description tx = Some descr \<and>
          (words_of descr = [] \<or> 500 < length (pattern_of descr)))"
      using that w by (metis not_le)
    from learn_rule_unchanged [OF this, of d1 u] show ?thesis
      by (simp add: db rules)
  qed
  show ?thesis
    using A B confirm_row_hit_count [of st u tx] confirm_hit_count [of d u b] by blast
qed

theorem rule_learning_witness:
  "imported (confirm_row 1 \<lparr>cs_db = d_learn, imported = 0, skipped = 0, errors = []\<rparr>
       (hd (staged_transactions d_learn))) = Suc 0 \<and>
   pattern_of (js ''Coffee Shop #42'') = js ''coffee shop'' \<and>
   lookup_rule (category_rules (cs_db (confirm_row 1
       \<lparr>cs_db = d_learn, imported = 0, skipped = 0, errors = []\<rparr>
       (hd (staged_transactions d_learn))))) 1 (js ''coffee shop'') =
     Some \<lparr>r_user_id = 1, r_pattern = js ''coffee shop'', r_category = Some (js ''Dining''),
           r_debit_account_id = Some 10, r_credit_account_id = Some 20, r_hit_count = 3\<rparr>"
proof -
  let ?st = "\<lparr>cs_db = d_learn, imported = 0, skipped = 0, errors = []\<rparr>"
  let ?tx = "hd (staged_transactions d_learn)"
  have tx: "?tx = staged_example 1 1 ''b1'' (Some ''Coffee Shop #42'') (Some 15000) ''Dining''
      (Some 10) (Some 20) ''pending''"
    by (simp add: d_learn_def)
  have imp: "imported (confirm_row 1 ?st ?tx) = Suc (imported ?st)"
    unfolding tx by (simp add: d_learn_def eval_defs str_defs)
  have h1: "s_suggested_category ?tx \<noteq> Some (js ''Uncategorized'')"
    unfolding tx by (simp add: staged_example_def js_def)
  have h2: "s_description ?tx = Some (js ''Coffee Shop #42'')"
    unfolding tx by (simp add: staged_example_def)
  have p: "pattern_of (js ''Coffee Shop #42'') = js ''coffee shop''"
    by (simp add: str_defs)
  have h3: "\<exists>w \<in> set (letter_runs (js ''Coffee Shop #42'')). 2 < length w"
    by (simp add: js_def is_alpha_def)
  have h4: "length (pattern_of (js ''Coffee Shop #42'')) \<le> 500"
    unfolding p by (simp add: js_def)
  have old: "lookup_rule (category_rules (cs_db ?st)) 1 (js ''coffee shop'') =
      Some \<lparr>r_user_id = 1, r_pattern = js ''coffee shop'', r_category = Some (js ''Food''),
          r_debit_account_id = Some 10, r_credit_account_id = None, r_hit_count = 2\<rparr>"
    by (simp add: d_learn_def lookup_rule_def)
  have acc: "s_suggested_debit_account_id ?tx = Some 10" "s_suggested_credit_account_id ?tx = Some 20"
    "s_suggested_category ?tx = Some (js ''Dining'')"
    unfolding tx by (simp_all add: staged_example_def)
  from rule_learning [OF imp, of d_learn None] h1 h2 h3 h4
  have "lookup_rule (category_rules (cs_db (confirm_row 1 ?st ?tx))) 1
        (pattern_of (js ''Coffee Shop #42'')) =
      Some \<lparr>r_user_id = 1, r_pattern = pattern_of (js ''Coffee Shop #42''),
            r_category = s_suggested_category ?tx,
            r_debit_account_id = s_suggested_debit_account_id ?tx,
            r_credit_account_id = s_suggested_credit_account_id ?tx,
            r_hit_count =
              (case lookup_rule (category_rules (cs_db ?st)) 1 (pattern_of (js ''Coffee Shop #42'')) of
                 None \<Rightarrow> 1 | Some r \<Rightarrow> r_hit_count r + 1)\<rparr>"
    by blast
  then show ?thesis
    unfolding p old acc using imp p by simp
qed

text \<open>
  C10. Every route of the staging store and of the rule corpus (list staged, single edit,
  bulk edit, confirm, clear staged, list rules) works on the caller's rows only. Two
  databases that differ at most in the staged rows and rules of other users give the
  caller the same answer, leave the caller's rows, the ledger and the accounts equal
  again, and keep the staged rows and rules of every other user as they were.
\<close>

theorem owner_isolation:
  assumes "same_for u d1 d2"
  shows "fst (handle u rq d1) = fst (handle u rq d2) \<and>
         same_for u (snd (handle u rq d1)) (snd (handle u rq d2)) \<and>
         others_untouched u d1 (snd (handle u rq d1)) \<and>
         others_untouched u d2 (snd (handle u rq d2))"
proof (cases rq)
  case (Get_staged b)
  then show ?thesis
    using get_staged_isolated [OF assms] assms by (simp add: others_untouched_def)
next
  case (Put_staged i upd)
  then show ?thesis
    using put_staged_isolated [OF assms] by simp
next
  case (Put_staged_bulk ids upd)
  then show ?thesis
    using put_staged_bulk_isolated [OF assms] by simp
next
  case (Post_confirm b)
  then show ?thesis
    using confirm_isolated [OF assms] confirm_others by simp
next
  case (Delete_staged b)
  then show ?thesis
    using delete_staged_isolated [OF assms] by simp
next
  case Get_rules
  then show ?thesis
    using get_rules_isolated [OF assms] assms by (simp add: others_untouched_def)
qed

theorem owner_isolation_witness:
  "same_for 1 d_alone d_shared \<and>
   fst (handle 1 (Post_confirm (Some (js ''b1''))) d_shared) = Confirmed 1 0 [] \<and>
   fst (handle 1 (Post_confirm (Some (js ''b1''))) d_alone) = Confirmed 1 0 [] \<and>
   staged_transactions (snd (handle 1 (Post_confirm (Some (js ''b1''))) d_shared)) =
     [staged_example 7 2 ''b1'' (Some ''Coffee Shop'') (Some 15000) ''Travel'' (Some 10) (Some 20)
        ''pending'']"
proof -
  have h: "same_for 1 d_alone d_shared"
    by (simp add: same_for_def own_staged_def own_rules_def d_alone_def d_shared_def
          staged_example_def)
  have a: "fst (handle 1 (Post_confirm (Some (js ''b1''))) d_alone) = Confirmed 1 0 []"
    by (simp add: d_alone_def eval_defs str_defs)
  have o: "filter (\<lambda>s. s_user_id s \<noteq> 1) (staged_transactions d_shared) =
      [staged_example 7 2 ''b1'' (Some ''Coffee Shop'') (Some 15000) ''Travel'' (Some 10) (Some 20)
        ''pending'']"
    by (simp add: d_shared_def staged_example_def)
  have own: "own_staged 1 (snd (handle 1 (Post_confirm (Some (js ''b1''))) d_alone)) = []"
    by (simp add: own_staged_def d_alone_def eval_defs str_defs)
  from owner_isolation [OF h, of "Post_confirm (Some (js ''b1''))"]
  have r: "fst (handle 1 (Post_confirm (Some (js ''b1''))) d_alone) =
        fst (handle 1 (Post_confirm (Some (js ''b1''))) d_shared)"
    and s: "own_staged 1 (snd (handle 1 (Post_confirm (Some (js ''b1''))) d_shared)) = []"
    and t: "filter (\<lambda>s. s_user_id s \<noteq> 1)
        (staged_transactions (snd (handle 1 (Post_confirm (Some (js ''b1''))) d_shared))) =
       filter (\<lambda>s. s_user_id s \<noteq> 1) (staged_transactions d_shared)"
    using own by (simp_all add: same_for_def others_untouched_def)
  have "staged_transactions (snd (handle 1 (Post_confirm (Some (js ''b1''))) d_shared)) =
      filter (\<lambda>s. s_user_id s \<noteq> 1)
        (staged_transactions (snd (handle 1 (Post_confirm (Some (js ''b1''))) d_shared)))"
    using s unfolding own_staged_def
    by (simp add: filter_empty_conv filter_id_conv)
  then show ?thesis
    using h a r t o by simp
qed



section \<open>Claims about the value parsers\<close>

text \<open>
  C7. A two-digit year maps to 19xx when it is greater than 50 and to 20xx otherwise, in
  the numeric form and in the form with a month name. The numeric form does so
  (\<open>parseDate_numeric_two_digit_year\<close>). The form with a month name prefixes "20"
  whatever the year is (\<open>parseDate_month_two_digit_year\<close>): "15-Jan-99" becomes
  2099-01-15, where "15/01/99" becomes 1999-01-15.
\<close>

theorem parseDate_month_form_year_99:
  "parseDate (\<lambda>s. None) (js ''15-Jan-99'') = Some (js ''2099-01-15'') \<and>
   parseDate (\<lambda>s. None) (js ''15/01/99'') = Some (js ''1999-01-15'')"
  by (simp add: parseDate_def numeric_date_def month_date_def split3_def months_def
        digits_1_2_def all_digits_def padStart2_def digits_val_def is_date_sep_def
        is_mon_sep_def js_def trim_def is_space_def is_alpha_def is_digit_def toLowerCase_def
        lower_unit_def Let_def)



section \<open>Claims about the page-layout reconstructor\<close>

text \<open>
  C6. The header row is the first row, from the top, whose text contains at least three
  of the header keywords: when the search returns the index \<open>i\<close>, row \<open>i\<close> has at least
  three hits (so never exactly two), no row before it has three, and the transactions are
  extracted from the rows after it with the columns of row \<open>i\<close>; the search succeeds
  whenever some row has three hits; and when no row has three hits there is no header row
  and the result is that of the line-based extractor.
\<close>

theorem header_detection:
  "(\<forall>i. headerRowIdx rows = Some i \<longrightarrow>
      i < length rows \<and> 3 \<le> matchCount (rows ! i) \<and> matchCount (rows ! i) \<noteq> 2 \<and>
      (\<forall>j < i. matchCount (rows ! j) < 3) \<and>
      parsePDF native rows =
        extract_rows native (colMap_of (tr_items (rows ! i))) (drop (Suc i) rows)) \<and>
   ((\<exists>row \<in> set rows. 3 \<le> matchCount row) \<longrightarrow> (\<exists>i. headerRowIdx rows = Some i)) \<and>
   ((\<forall>row \<in> set rows. matchCount row < 3) \<longrightarrow>
      headerRowIdx rows = None \<and>
      parsePDF native rows = parsePDFLineBased native rows (bankType_of rows))"
proof -
  have a: "i < length rows \<and> 3 \<le> matchCount (rows ! i) \<and> matchCount (rows ! i) \<noteq> 2 \<and>
      (\<forall>j < i. matchCount (rows ! j) < 3) \<and>
      parsePDF native rows =
        extract_rows native (colMap_of (tr_items (rows ! i))) (drop (Suc i) rows)"
    if h: "headerRowIdx rows = Some i" for i
    using headerRowIdx_Some [OF h] by (simp add: parsePDF_def h)
  have b: "\<exists>i. headerRowIdx rows = Some i" if "\<exists>row \<in> set rows. 3 \<le> matchCount row"
  proof -
    from that have "headerRowIdx rows \<noteq> None"
      unfolding headerRowIdx_None by (simp add: not_less)
    then show ?thesis by auto
  qed
  have c: "headerRowIdx rows = None \<and>
      parsePDF native rows = parsePDFLineBased native rows (bankType_of rows)"
    if "\<forall>row \<in> set rows. matchCount row < 3"
  proof -
    from that have "headerRowIdx rows = None"
      by (simp add: headerRowIdx_None)
    then show ?thesis
      by (simp add: parsePDF_def)
  qed
  from a b c show ?thesis
    by blast
qed

theorem header_detection_witness:
  "map matchCount rows_header = [1, 2, 7, 0, 1] \<and>
   headerRowIdx rows_header = Some 2 \<and>
   parsePDF no_native rows_header =
     extract_rows no_native (colMap_of (tr_items (rows_header ! 2))) (drop 3 rows_header) \<and>
   map matchCount rows_plain = [0, 2, 1, 0] \<and>
   headerRowIdx rows_plain = None \<and>
   parsePDF no_native rows_plain = parsePDFLineBased no_native rows_plain (bankType_of rows_plain)"
proof -
  have "\<forall>n \<in> set (map matchCount rows_plain). n < 3"
    unfolding ev_counts_plain by simp
  then have p: "\<forall>row \<in> set rows_plain. matchCount row < 3"
    by simp
  have "\<exists>n \<in> set (map matchCount rows_header). 3 \<le> n"
    unfolding ev_counts_header by simp
  then have e: "\<exists>row \<in> set rows_header. 3 \<le> matchCount row"
    by simp
  from header_detection [of rows_header no_native] e
  obtain i where i: "headerRowIdx rows_header = Some i"
    by blast
  then have i2: "i = 2"
    unfolding ev_header_idx by simp
  from header_detection [of rows_header no_native] i
  have "parsePDF no_native rows_header =
     extract_rows no_native (colMap_of (tr_items (rows_header ! i))) (drop (Suc i) rows_header)"
    by blast
  then have h: "parsePDF no_native rows_header =
     extract_rows no_native (colMap_of (tr_items (rows_header ! 2))) (drop 3 rows_header)"
    unfolding i2 by (simp add: numeral_3_eq_3)
  from header_detection [of rows_plain no_native] p
  have l: "headerRowIdx rows_plain = None \<and>
     parsePDF no_native rows_plain = parsePDFLineBased no_native rows_plain (bankType_of rows_plain)"
    by blast
  from h l show ?thesis
    using ev_counts_header ev_counts_plain ev_header_idx by simp
qed





end
